theory Spec2Isabelle
  imports Complex_Main "HOL-Library.AList" "HOL-Library.Multiset"
begin

section \<open>Event Log Store (internal/logging/logging.go)\<close>

text \<open>
  Go values of type \<open>any\<close> that reach the logger as key/value arguments. Only the
  distinction between strings and other values matters to the code
  (\<open>kv[i].(string)\<close>). A float is the rational number it denotes.
\<close>

datatype any = Str string | Num int | Flt rat | Boolean bool | Nil

text \<open>
  \<open>type entry struct { Time; Level; Msg; Fields map[string]any }\<close>. Time is the
  instant in nanoseconds; a map is an association list with unique keys, and the nil map
  is \<open>None\<close>.
\<close>

record entry =
  Time :: int
  Level :: string
  Msg :: string
  Fields :: "(string \<times> any) list option"

text \<open>
  The package-level variables. \<open>recent\<close> is the slice of 1000 entry pointers
  (\<open>None\<close> is the nil pointer), \<open>subscribers\<close> holds the buffer of each subscribed
  channel, oldest element first (channels have capacity 100), \<open>persistFn\<close> says whether a
  persistence callback is registered, \<open>sink_calls\<close> lists the entries for which a
  goroutine \<open>go fn(e)\<close> was started, and \<open>printed\<close> lists the lines handed to
  \<open>log.Println\<close> (with the logger's json flag).
\<close>

record log_state =
  recent :: "entry option list"
  nextIdx :: nat
  logLevel :: string
  subscribers :: "entry list list"
  persistFn :: bool
  sink_calls :: "entry list"
  printed :: "(bool \<times> entry) list"

definition initial :: log_state where
  "initial = \<lparr>recent = replicate 1000 None, nextIdx = 0, logLevel = ''info'',
     subscribers = [], persistFn = False, sink_calls = [], printed = []\<rparr>"

definition SetPersist :: "bool \<Rightarrow> log_state \<Rightarrow> log_state" where
  "SetPersist fn s = s\<lparr>persistFn := fn\<rparr>"

definition SetLevel :: "string \<Rightarrow> log_state \<Rightarrow> log_state" where
  "SetLevel lvl s =
     (if lvl = ''debug'' \<or> lvl = ''info'' \<or> lvl = ''error'' \<or> lvl = ''fatal''
      then s\<lparr>logLevel := lvl\<rparr>
      else s\<lparr>logLevel := ''info''\<rparr>)"

definition GetLevel :: "log_state \<Rightarrow> string" where
  "GetLevel s = logLevel s"

text \<open>
  \<open>order := map[string]int{"debug":0, "info":1, "error":2, "fatal":3}\<close>; reading a
  missing key of a Go map gives the zero value.
\<close>

definition order :: "string \<Rightarrow> int" where
  "order l =
     (if l = ''debug'' then 0 else if l = ''info'' then 1
      else if l = ''error'' then 2 else if l = ''fatal'' then 3 else 0)"

definition shouldLog :: "log_state \<Rightarrow> string \<Rightarrow> bool" where
  "shouldLog s lvl = (let cur = order (logLevel s); lv = order lvl in lv \<ge> cur)"

text \<open>
  \<open>select { case ch <- e: default: }\<close> on a channel of capacity 100: the send succeeds
  when the buffer has room, and the entry is dropped otherwise. Each send touches its own
  channel only, so the iteration order of the subscriber map does not matter.
\<close>

definition try_send :: "entry \<Rightarrow> entry list \<Rightarrow> entry list" where
  "try_send e ch = (if length ch < 100 then ch @ [e] else ch)"

definition broadcast :: "entry \<Rightarrow> log_state \<Rightarrow> log_state" where
  "broadcast e s = s\<lparr>subscribers := map (try_send e) (subscribers s)\<rparr>"

definition appendBuf :: "entry \<Rightarrow> log_state \<Rightarrow> log_state" where
  "appendBuf e s =
     (let s1 = s\<lparr>recent := (recent s)[nextIdx s := Some e],
                   nextIdx := (nextIdx s + 1) mod length (recent s)\<rparr>;
          s2 = broadcast e s1
      in if persistFn s2 then s2\<lparr>sink_calls := sink_calls s2 @ [e]\<rparr> else s2)"

text \<open>
  \<open>fieldsFromKV\<close>: pairs are read two at a time, a trailing single element ends the
  loop, a pair whose key is not a string is skipped, and a later key overwrites.
\<close>

fun fieldsFromKV_loop :: "any list \<Rightarrow> (string \<times> any) list \<Rightarrow> (string \<times> any) list" where
  "fieldsFromKV_loop (Str k # v # kv) m = fieldsFromKV_loop kv (AList.update k v m)"
| "fieldsFromKV_loop (_ # v # kv) m = fieldsFromKV_loop kv m"
| "fieldsFromKV_loop _ m = m"

definition fieldsFromKV :: "any list \<Rightarrow> (string \<times> any) list option" where
  "fieldsFromKV kv = (if kv = [] then None else Some (fieldsFromKV_loop kv []))"

text \<open>
  \<open>(l *stdLogger) write\<close>; \<open>js\<close> is the logger's json flag and \<open>now\<close> the value
  of \<open>time.Now()\<close>.
\<close>

definition stdLogger_write :: "bool \<Rightarrow> string \<Rightarrow> string \<Rightarrow> any list \<Rightarrow> int \<Rightarrow> log_state \<Rightarrow> log_state" where
  "stdLogger_write js level msg kv now s =
     (if \<not> shouldLog s level then s
      else let e = \<lparr>Time = now, Level = level, Msg = msg, Fields = fieldsFromKV kv\<rparr>;
               s' = appendBuf e s
           in s'\<lparr>printed := printed s' @ [(js, e)]\<rparr>)"

text \<open>
  The loop of \<open>Recent\<close>: \<open>for c := 0; c < len(recent) && len(out) < n; c++\<close>. The
  first numeric argument counts the iterations that remain, \<open>i\<close> is the index read
  next; \<open>(i - 1 + len(recent)) % len(recent)\<close> is written on naturals.
\<close>

fun Recent_loop :: "entry option list \<Rightarrow> nat \<Rightarrow> nat \<Rightarrow> nat \<Rightarrow> entry list \<Rightarrow> entry list" where
  "Recent_loop buf n 0 i out = out"
| "Recent_loop buf n (Suc c) i out =
     (if length out < n
      then Recent_loop buf n c ((i + length buf - 1) mod length buf)
             (case buf ! i of Some e \<Rightarrow> out @ [e] | None \<Rightarrow> out)
      else out)"

definition Recent :: "int \<Rightarrow> log_state \<Rightarrow> entry list" where
  "Recent n s =
     (let len = length (recent s);
          n' = (if n \<le> 0 \<or> n > int len then int len else n);
          i = (nextIdx s + len - 1) mod len
      in Recent_loop (recent s) (nat n') len i [])"

text \<open>A sequence of accepted writes, oldest first.\<close>

definition appendAll :: "entry list \<Rightarrow> log_state \<Rightarrow> log_state" where
  "appendAll es s = foldl (\<lambda>s e. appendBuf e s) s es"

text \<open>
  Notions used to state the ring properties: the non-nil elements of a slice in order,
  and the slots a backward walk of \<open>c\<close> steps from index \<open>i\<close> visits.
\<close>

fun catSomes :: "'a option list \<Rightarrow> 'a list" where
  "catSomes [] = []"
| "catSomes (None # xs) = catSomes xs"
| "catSomes (Some x # xs) = x # catSomes xs"

fun ring_walk :: "'a list \<Rightarrow> nat \<Rightarrow> nat \<Rightarrow> 'a list" where
  "ring_walk buf i 0 = []"
| "ring_walk buf i (Suc c) = buf ! i # ring_walk buf ((i + length buf - 1) mod length buf) c"

text \<open>A log entry used for concrete instances.\<close>

definition sample_entry :: "nat \<Rightarrow> entry" where
  "sample_entry i = \<lparr>Time = int i, Level = ''info'', Msg = ''m'', Fields = None\<rparr>"

section \<open>Go's float64 arithmetic\<close>

text \<open>
  A finite \<open>float64\<close> is a rational number; every arithmetic operation returns the
  exact result rounded to the nearest value with a 53 bit significand, ties to even
  (IEEE 754 binary64, the arithmetic Go specifies). Infinities and NaN are not modelled:
  the quantities below stay far inside the finite range.
\<close>

type_synonym float64 = rat

text \<open>The number of binary digits of a positive integer.\<close>

function bit_length :: "int \<Rightarrow> int" where
  "bit_length n = (if n \<le> 0 then 0 else 1 + bit_length (n div 2))"
  by pat_completeness auto
termination
  by (relation "measure nat") auto

definition pow2 :: "int \<Rightarrow> rat" where
  "pow2 k = (if 0 \<le> k then 2 ^ nat k else 1 / 2 ^ nat (- k))"

text \<open>
  For a fraction \<open>a / b\<close> with \<open>a, b > 0\<close>, \<open>floor_log2 a b\<close> is the integer
  \<open>k\<close> with \<open>2^k \<le> a / b < 2^(k+1)\<close>: the difference of the bit lengths of \<open>a\<close>
  and \<open>b\<close>, or one less. \<open>ge_pow2 a b k\<close> says \<open>2^k \<le> a / b\<close>.
\<close>

definition ge_pow2 :: "int \<Rightarrow> int \<Rightarrow> int \<Rightarrow> bool" where
  "ge_pow2 a b k = (if 0 \<le> k then 2 ^ nat k * b \<le> a else b \<le> a * 2 ^ nat (- k))"

definition log2_adjust :: "int \<Rightarrow> int \<Rightarrow> int \<Rightarrow> int" where
  "log2_adjust a b k = (if ge_pow2 a b k then k else k - 1)"

definition floor_log2 :: "int \<Rightarrow> int \<Rightarrow> int" where
  "floor_log2 a b = log2_adjust a b (bit_length a - bit_length b)"

text \<open>
  \<open>round_div_even n d\<close> is the integer nearest to \<open>n / d\<close> (for \<open>d > 0\<close>), ties
  to the even one: the quotient \<open>q\<close> and the remainder \<open>r\<close> of the floor division
  decide.
\<close>

definition round_rem :: "int \<Rightarrow> int \<Rightarrow> int \<Rightarrow> int" where
  "round_rem q r d =
     (if 2 * r < d then q else if d < 2 * r then q + 1 else if even q then q else q + 1)"

definition round_div_even :: "int \<Rightarrow> int \<Rightarrow> int" where
  "round_div_even n d = round_rem (n div d) (n mod d) d"

text \<open>
  The unit in the last place of a binary64 value of magnitude \<open>a / b\<close> is \<open>2^e\<close>
  with \<open>e = floor_log2 a b - 52\<close>, and never below \<open>2^-1074\<close> (subnormal numbers).
  \<open>round_to_ulp a b e\<close> is the multiple of \<open>2^e\<close> nearest to \<open>a / b\<close>.
\<close>

definition round_to_ulp :: "int \<Rightarrow> int \<Rightarrow> int \<Rightarrow> rat" where
  "round_to_ulp a b e =
     of_int (if e \<le> 0 then round_div_even (a * 2 ^ nat (- e)) b
             else round_div_even a (b * 2 ^ nat e)) * pow2 e"

definition round64_frac :: "int \<Rightarrow> int \<Rightarrow> float64" where
  "round64_frac a b = round_to_ulp a b (max (floor_log2 \<bar>a\<bar> b - 52) (- 1074))"

text \<open>\<open>quotient_of x\<close> is the numerator and the positive denominator of \<open>x\<close>.\<close>

definition round64 :: "rat \<Rightarrow> float64" where
  "round64 x =
     (if x = 0 then 0 else round64_frac (fst (quotient_of x)) (snd (quotient_of x)))"

definition f64_of_int :: "int \<Rightarrow> float64" where
  "f64_of_int i = round64 (of_int i)"

definition f64_add :: "float64 \<Rightarrow> float64 \<Rightarrow> float64" where
  "f64_add x y = round64 (x + y)"

definition f64_mul :: "float64 \<Rightarrow> float64 \<Rightarrow> float64" where
  "f64_mul x y = round64 (x * y)"

text \<open>Division by zero gives an infinity or NaN in Go; no call below divides by zero.\<close>

definition f64_div :: "float64 \<Rightarrow> float64 \<Rightarrow> float64" where
  "f64_div x y = round64 (x / y)"

text \<open>
  The conversion \<open>int(x)\<close> of a float discards the fraction (truncation toward zero).
  Go leaves the result to the implementation when the value does not fit the integer
  type; the arguments below are bounded by the sample size and by 100.
\<close>

definition f64_to_int :: "float64 \<Rightarrow> int" where
  "f64_to_int x = (if 0 \<le> x then \<lfloor>x\<rfloor> else - \<lfloor>- x\<rfloor>)"

section \<open>Aggregator (obsSummary)\<close>

text \<open>
  \<open>models.TraceRow\<close>, the durable form of a trace. Instants are nanoseconds since the
  Unix epoch.
\<close>

record TraceRow =
  RowID :: string
  RowMethod :: string
  RowPath :: string
  RowStatus :: int
  RowUserEmail :: string
  RowUserRole :: string
  RowUserAgent :: string
  RowRemoteIP :: string
  RowReqBytes :: int
  RowRespBytes :: int
  RowStarted :: int
  RowEnded :: int
  DurationNs :: int

subsection \<open>The percentile helper\<close>

text \<open>
  The inner loop of the sort: \<open>for j >= 0 && vv[j] > x { vv[j+1] = vv[j]; j-- }; vv[j+1] = x\<close>.
  The numeric argument is \<open>j + 1\<close>.
\<close>

fun shift_insert :: "nat \<Rightarrow> float64 list \<Rightarrow> float64 \<Rightarrow> float64 list" where
  "shift_insert 0 vv x = vv[0 := x]"
| "shift_insert (Suc j) vv x =
     (if vv ! j > x then shift_insert j (vv[Suc j := vv ! j]) x else vv[Suc j := x])"

text \<open>\<open>for i := 1; i < len(vv); i++ { x := vv[i]; ... }\<close> on a copy of the sample.\<close>

definition simple_sort :: "float64 list \<Rightarrow> float64 list" where
  "simple_sort vals = foldl (\<lambda>vv i. shift_insert i vv (vv ! i)) vals [1..<length vals]"

definition percentile :: "float64 list \<Rightarrow> float64 \<Rightarrow> float64" where
  "percentile vals p =
     (if length vals = 0 then 0
      else let vv = simple_sort vals;
               idx = f64_to_int (f64_mul (f64_div p 100) (f64_of_int (int (length vv) - 1)));
               idx1 = (if idx < 0 then 0 else idx);
               idx2 = (if idx1 \<ge> int (length vv) then int (length vv) - 1 else idx1)
           in vv ! nat idx2)"

subsection \<open>The selection sort of the rankings\<close>

text \<open>
  Both rankings and the per-minute list are sorted by the same loop:
  \<open>for i { mi := i; for j := i+1.. { if better(arr[j], arr[mi]) { mi = j } };
  arr[i], arr[mi] = arr[mi], arr[i] }\<close>, where \<open>better\<close> is greater-than on the key (rankings) or
  less-than on the timestamp (per-minute list).
\<close>

definition find_best :: "('a \<Rightarrow> 'a \<Rightarrow> bool) \<Rightarrow> 'a list \<Rightarrow> nat \<Rightarrow> nat" where
  "find_best better arr i =
     foldl (\<lambda>mi j. if better (arr ! j) (arr ! mi) then j else mi) i [Suc i..<length arr]"

definition swap :: "nat \<Rightarrow> nat \<Rightarrow> 'a list \<Rightarrow> 'a list" where
  "swap i mi arr = arr[i := arr ! mi, mi := arr ! i]"

definition selection_sort :: "('a \<Rightarrow> 'a \<Rightarrow> bool) \<Rightarrow> 'a list \<Rightarrow> 'a list" where
  "selection_sort better arr =
     foldl (\<lambda>a i. swap i (find_best better a i) a) arr [0..<length arr]"

definition sortBy :: "('a \<Rightarrow> float64) \<Rightarrow> 'a list \<Rightarrow> 'a list" where
  "sortBy key arr = selection_sort (\<lambda>a b. key a > key b) arr"

subsection \<open>The aggregation loop\<close>

record statusCounts =
  s2xx :: int
  s3xx :: int
  s4xx :: int
  s5xx :: int

record pAgg =
  Count :: int
  SumMs :: float64
  Lats :: "float64 list"
  Errs :: int
  LastMsg :: string
  LastStatus :: int
  SampleID :: string

definition pAgg_zero :: pAgg where
  "pAgg_zero = \<lparr>Count = 0, SumMs = 0, Lats = [], Errs = 0, LastMsg = [], LastStatus = 0,
     SampleID = []\<rparr>"

text \<open>
  The loop state: the latency list, the status histogram, the per-minute buckets (a map
  from the minute's Unix second to count and errors) and the per-path table. Maps are
  association lists with unique keys.
\<close>

record agg_state =
  lat :: "float64 list"
  counts :: statusCounts
  buckets :: "(int \<times> int \<times> int) list"
  paths :: "(string \<times> pAgg) list"

text \<open>\<open>t.Truncate(time.Minute).Unix()\<close> for an instant in nanoseconds.\<close>

definition minute_unix :: "int \<Rightarrow> int" where
  "minute_unix t = (t div 60000000000) * 60"

text \<open>
  \<open>for i := 0; i < 12; i++ { m := now.Add(-i * time.Minute).Truncate(time.Minute).Unix();
  buckets[m] = {0, 0} }\<close>
\<close>

definition seed_buckets :: "int \<Rightarrow> (int \<times> int \<times> int) list" where
  "seed_buckets now =
     foldl (\<lambda>bs i. AList.update (minute_unix (now - int i * 60000000000)) (0, 0) bs)
       [] [0..<12]"

definition ms_of :: "TraceRow \<Rightarrow> float64" where
  "ms_of t = (let ms = f64_div (f64_of_int (DurationNs t)) 1000000 in if ms < 0 then 0 else ms)"

definition bump_status :: "int \<Rightarrow> statusCounts \<Rightarrow> statusCounts" where
  "bump_status s c =
     (if s \<ge> 500 then c\<lparr>s5xx := s5xx c + 1\<rparr>
      else if s \<ge> 400 then c\<lparr>s4xx := s4xx c + 1\<rparr>
      else if s \<ge> 300 then c\<lparr>s3xx := s3xx c + 1\<rparr>
      else c\<lparr>s2xx := s2xx c + 1\<rparr>)"

text \<open>\<open>if b, ok := buckets[m]; ok { b.Count++; if t.Status >= 400 { b.Errors++ } }\<close>\<close>

definition bump_bucket :: "int \<Rightarrow> int \<Rightarrow> (int \<times> int \<times> int) list \<Rightarrow> (int \<times> int \<times> int) list" where
  "bump_bucket m status bs =
     (case map_of bs m of
        None \<Rightarrow> bs
      | Some (c, e) \<Rightarrow> AList.update m (c + 1, if status \<ge> 400 then e + 1 else e) bs)"

text \<open>
  The per-path part of the loop body. \<open>msg\<close> is the result of the query for the last
  \<open>error\<close> event of the trace: the string under \<open>message\<close> in its fields, or
  \<open>None\<close> when the query fails, the fields are empty or hold no such string.
\<close>

definition bump_path :: "TraceRow \<Rightarrow> float64 \<Rightarrow> string option \<Rightarrow> pAgg \<Rightarrow> pAgg" where
  "bump_path t ms msg pa =
     (let pa1 = pa\<lparr>Count := Count pa + 1, SumMs := f64_add (SumMs pa) ms,
                     Lats := (if length (Lats pa) < 100 then Lats pa @ [ms] else Lats pa)\<rparr>
      in if RowStatus t \<ge> 400
         then pa1\<lparr>Errs := Errs pa1 + 1,
                  LastMsg := (case msg of Some v \<Rightarrow> v | None \<Rightarrow> LastMsg pa1),
                  LastStatus := RowStatus t,
                  SampleID := (if SampleID pa1 = [] then RowID t else SampleID pa1)\<rparr>
         else pa1)"

definition agg_step :: "(string \<Rightarrow> string option) \<Rightarrow> agg_state \<Rightarrow> TraceRow \<Rightarrow> agg_state" where
  "agg_step lookup_msg st t =
     (let ms = ms_of t;
          pa = (case map_of (paths st) (RowPath t) of None \<Rightarrow> pAgg_zero | Some a \<Rightarrow> a)
      in \<lparr>lat = lat st @ [ms],
          counts = bump_status (RowStatus t) (counts st),
          buckets = bump_bucket (minute_unix (RowStarted t)) (RowStatus t) (buckets st),
          paths = AList.update (RowPath t) (bump_path t ms (lookup_msg (RowID t)) pa) (paths st)\<rparr>)"

definition agg_loop :: "int \<Rightarrow> (string \<Rightarrow> string option) \<Rightarrow> TraceRow list \<Rightarrow> agg_state" where
  "agg_loop now lookup_msg trs =
     foldl (agg_step lookup_msg)
       \<lparr>lat = [], counts = \<lparr>s2xx = 0, s3xx = 0, s4xx = 0, s5xx = 0\<rparr>,
        buckets = seed_buckets now, paths = []\<rparr> trs"

subsection \<open>The summary\<close>

record slow_item =
  slow_path :: string
  slow_count :: int
  avgMs :: float64
  p95Ms :: float64

record error_item =
  error_path :: string
  error_count :: float64
  lastMessage :: string
  lastStatus :: int
  sampleTraceId :: string

record summary =
  recentLatencies :: "float64 list"
  statusCounts :: statusCounts
  perMinute :: "(int \<times> int \<times> int) list"
  topSlow :: "slow_item list"
  topErrors :: "error_item list"

text \<open>
  \<open>for k, v := range m\<close> yields the entries of a Go map in an order the runtime
  chooses, a different one from run to run. The order is a parameter: \<open>range_map m ks\<close>
  yields the entries of \<open>m\<close> in the order \<open>ks\<close> of its keys.
\<close>

definition range_map :: "('k \<times> 'v) list \<Rightarrow> 'k list \<Rightarrow> ('k \<times> 'v) list" where
  "range_map m ks = List.map_filter (\<lambda>k. map_option (Pair k) (map_of m k)) ks"

definition slow_of :: "string \<times> pAgg \<Rightarrow> slow_item list" where
  "slow_of pa =
     (case pa of (path, ag) \<Rightarrow>
        if Count ag = 0 then []
        else if Count ag \<ge> 3
        then [\<lparr>slow_path = path, slow_count = Count ag,
                avgMs = f64_div (SumMs ag) (f64_of_int (Count ag)),
                p95Ms = percentile (Lats ag) 95\<rparr>]
        else [])"

definition error_of :: "string \<times> pAgg \<Rightarrow> error_item list" where
  "error_of pa =
     (case pa of (path, ag) \<Rightarrow>
        if Count ag = 0 then []
        else if Errs ag > 0
        then [\<lparr>error_path = path, error_count = f64_of_int (Errs ag),
                lastMessage = LastMsg ag, lastStatus = LastStatus ag,
                sampleTraceId = SampleID ag\<rparr>]
        else [])"

text \<open>
  \<open>obsSummary\<close>: \<open>now\<close> is \<open>time.Now()\<close>, \<open>trs\<close> the rows the query returned
  (its error is discarded, so any list may arrive), \<open>border\<close> and \<open>porder\<close> the orders
  in which the runtime enumerates the bucket map and the per-path map.
\<close>

definition obsSummary ::
  "int \<Rightarrow> TraceRow list \<Rightarrow> (string \<Rightarrow> string option) \<Rightarrow> int list \<Rightarrow> string list \<Rightarrow> summary" where
  "obsSummary now trs lookup_msg border porder =
     (let st = agg_loop now lookup_msg trs;
          entries = range_map (paths st) porder;
          slow = sortBy p95Ms (concat (map slow_of entries));
          errs = sortBy error_count (concat (map error_of entries))
      in \<lparr>recentLatencies = lat st,
          statusCounts = counts st,
          perMinute = selection_sort (\<lambda>a b. fst a < fst b) (range_map (buckets st) border),
          topSlow = (if length slow > 5 then take 5 slow else slow),
          topErrors = (if length errs > 8 then take 8 errs else errs)\<rparr>)"

subsection \<open>Notions used to state the aggregator's properties\<close>

text \<open>
  The invariant of the selection sort after \<open>k\<close> rounds, for the order \<open>key a < key b\<close>:
  the first \<open>k\<close> elements are sorted and no greater than the rest.
\<close>

definition sel_inv :: "('a \<Rightarrow> 'b::linorder) \<Rightarrow> 'a list \<Rightarrow> nat \<Rightarrow> 'a list \<Rightarrow> bool" where
  "sel_inv key arr k s \<longleftrightarrow> length s = length arr \<and> mset s = mset arr \<and>
     sorted (map key (take k s)) \<and>
     (\<forall>x \<in> set (take k s). \<forall>y \<in> set (drop k s). key x \<le> key y)"

text \<open>
  The traces of a window that started in the minute \<open>ts\<close>, those among them with
  status 400 or more, and the twelve minutes up to \<open>now\<close>, oldest first.
\<close>

definition bucket_count :: "TraceRow list \<Rightarrow> int \<Rightarrow> int" where
  "bucket_count trs ts = int (length (filter (\<lambda>t. minute_unix (RowStarted t) = ts) trs))"

definition bucket_errors :: "TraceRow list \<Rightarrow> int \<Rightarrow> int" where
  "bucket_errors trs ts =
     int (length (filter (\<lambda>t. minute_unix (RowStarted t) = ts \<and> RowStatus t \<ge> 400) trs))"

definition minute_keys :: "int \<Rightarrow> int list" where
  "minute_keys now = map (\<lambda>i. (now div 60000000000 - 11 + int i) * 60) [0..<12]"







section \<open>Trace Store and the tracing middleware (router.go)\<close>

record TraceEvent =
  EventTime :: int
  EventName :: string
  EventFields :: "(string \<times> any) list"

text \<open>
  \<open>type Trace struct\<close>. Instants are nanoseconds; the zero instant and the unset status
  are 0. The field \<open>Tags\<close>, which no code assigns, is left out.
\<close>

record Trace =
  ID :: string
  Method :: string
  Path :: string
  Status :: int
  UserEmail :: string
  UserRole :: string
  UserAgent :: string
  RemoteIP :: string
  ReqBytes :: int
  RespBytes :: int
  Started :: int
  Ended :: int
  Duration :: int
  Events :: "TraceEvent list"

text \<open>\<open>traceStore\<close>: the ring of the 1000 most recent traces.\<close>

record traceStore =
  ring_buf :: "Trace option list"
  next_slot :: nat
  ring_size :: nat

definition traces_initial :: traceStore where
  "traces_initial = \<lparr>ring_buf = replicate 1000 None, next_slot = 0, ring_size = 1000\<rparr>"

definition traceStore_add :: "Trace \<Rightarrow> traceStore \<Rightarrow> traceStore" where
  "traceStore_add t s =
     s\<lparr>ring_buf := (ring_buf s)[next_slot s := Some t], next_slot := (next_slot s + 1) mod ring_size s\<rparr>"

subsection \<open>The status recorder over net/http's response writer\<close>

text \<open>
  The \<open>http.ResponseWriter\<close> the recorder wraps is the one of net/http's server. As far
  as the recorder depends on it: \<open>WriteHeader\<close> does nothing when the header is already
  written (a superfluous call), panics on a code outside 100..999
  (\<open>checkWriteHeaderCode\<close>), sends an informational header for 1xx codes other than 101
  without marking the header written, and otherwise writes the header; \<open>Write\<close> writes
  the header with status 200 first when it is not written yet.
\<close>

record response =
  wroteHeader :: bool
  status_sent :: int
  body_bytes :: int

definition response_initial :: response where
  "response_initial = \<lparr>wroteHeader = False, status_sent = 0, body_bytes = 0\<rparr>"

definition response_WriteHeader :: "int \<Rightarrow> response \<Rightarrow> response option" where
  "response_WriteHeader c r =
     (if wroteHeader r then Some r
      else if c < 100 \<or> c > 999 then None
      else if 100 \<le> c \<and> c \<le> 199 \<and> c \<noteq> 101 then Some r
      else Some (r\<lparr>wroteHeader := True, status_sent := c\<rparr>))"

definition response_Write :: "int \<Rightarrow> response \<Rightarrow> response" where
  "response_Write n r =
     (let r1 = (if wroteHeader r then r else r\<lparr>wroteHeader := True, status_sent := 200\<rparr>)
      in r1\<lparr>body_bytes := body_bytes r1 + n\<rparr>)"

text \<open>
  \<open>type statusRecorder struct { http.ResponseWriter; code int; bytes int64 }\<close>.
  \<open>WriteHeader\<close> stores the code, then calls the wrapped writer (\<open>None\<close>: it
  panicked); \<open>Write\<close> adds the number of bytes the wrapped writer reports.
\<close>

record statusRecorder =
  code :: int
  bytes :: int

definition recorder_WriteHeader ::
  "int \<Rightarrow> statusRecorder \<times> response \<Rightarrow> (statusRecorder \<times> response) option" where
  "recorder_WriteHeader statusCode sr =
     (case sr of (rec, w) \<Rightarrow>
        (case response_WriteHeader statusCode w of
           None \<Rightarrow> None
         | Some w' \<Rightarrow> Some (rec\<lparr>code := statusCode\<rparr>, w')))"

definition recorder_Write :: "int \<Rightarrow> statusRecorder \<times> response \<Rightarrow> statusRecorder \<times> response" where
  "recorder_Write n sr =
     (case sr of (rec, w) \<Rightarrow> (rec\<lparr>bytes := bytes rec + n\<rparr>, response_Write n w))"

text \<open>
  \<open>addEvent\<close> appends to the trace of the request's context when there is one.
\<close>

definition addEvent :: "Trace option \<Rightarrow> int \<Rightarrow> string \<Rightarrow> (string \<times> any) list \<Rightarrow> Trace option" where
  "addEvent ctx now name flds =
     (case ctx of
        None \<Rightarrow> None
      | Some t \<Rightarrow>
          Some (t\<lparr>Events := Events t @
                  [\<lparr>EventTime = now, EventName = name, EventFields = flds\<rparr>]\<rparr>))"

text \<open>
  What a handler does to the recorder and the trace: it calls \<open>WriteHeader\<close>, it calls
  \<open>Write\<close> (the argument is the number of bytes the wrapped writer reports as
  written), or it adds an event at some instant.
\<close>

datatype handler_call = WriteHeader int | Write int | AddEvent int string "(string \<times> any) list"

fun run_handler ::
  "handler_call list \<Rightarrow> statusRecorder \<times> response \<Rightarrow> Trace \<Rightarrow>
   ((statusRecorder \<times> response) \<times> Trace) option" where
  "run_handler [] sr t = Some (sr, t)"
| "run_handler (WriteHeader c # cs) sr t =
     (case recorder_WriteHeader c sr of None \<Rightarrow> None | Some sr' \<Rightarrow> run_handler cs sr' t)"
| "run_handler (Write n # cs) sr t = run_handler cs (recorder_Write n sr) t"
| "run_handler (AddEvent now name flds # cs) sr t =
     (case addEvent (Some t) now name flds of
        None \<Rightarrow> run_handler cs sr t
      | Some t' \<Rightarrow> run_handler cs sr t')"

subsection \<open>Durable persistence\<close>

record TraceEventRow =
  EvTraceID :: string
  EvTime :: int
  EvName :: string
  EvFields :: string

record db_state =
  trace_rows :: "TraceRow list"
  event_rows :: "TraceEventRow list"

datatype db_error = ErrRecordNotFound | DbError string

datatype statement = SaveTrace TraceRow | CreateEvent TraceEventRow

definition row_of :: "Trace \<Rightarrow> TraceRow" where
  "row_of t =
     \<lparr>RowID = ID t, RowMethod = Method t, RowPath = Path t, RowStatus = Status t,
      RowUserEmail = UserEmail t, RowUserRole = UserRole t, RowUserAgent = UserAgent t,
      RowRemoteIP = RemoteIP t, RowReqBytes = ReqBytes t, RowRespBytes = RespBytes t,
      RowStarted = Started t, RowEnded = Ended t, DurationNs = Duration t\<rparr>"

text \<open>
  \<open>Save\<close> writes the row under its primary key (replacing a row with the same id);
  \<open>Create\<close> inserts an event row, whose own id the database assigns. A statement that
  fails leaves the tables as they are.
\<close>

definition save_row :: "TraceRow \<Rightarrow> TraceRow list \<Rightarrow> TraceRow list" where
  "save_row row rows =
     (if list_ex (\<lambda>r. RowID r = RowID row) rows
      then map (\<lambda>r. if RowID r = RowID row then row else r) rows
      else rows @ [row])"

definition exec_statement :: "db_state \<Rightarrow> db_error option \<times> statement \<Rightarrow> db_state" where
  "exec_statement db fs =
     (case fs of
        (Some err, _) \<Rightarrow> db
      | (None, SaveTrace row) \<Rightarrow> db\<lparr>trace_rows := save_row row (trace_rows db)\<rparr>
      | (None, CreateEvent ev) \<Rightarrow> db\<lparr>event_rows := event_rows db @ [ev]\<rparr>)"

text \<open>
  \<open>persistTrace\<close>: nothing when no database is open; otherwise one \<open>Save\<close> of the
  trace row and one \<open>Create\<close> per event, every error discarded (\<open>_ = ...Error\<close>).
  \<open>marshal\<close> is \<open>json.Marshal\<close> on the fields; \<open>fault k\<close> is the error of the
  \<open>k\<close>-th statement, if it fails. The function returns nothing to its caller: the
  result is the database afterwards and the outcomes of the statements, which only GORM
  sees.
\<close>

definition trace_statements :: "((string \<times> any) list \<Rightarrow> string) \<Rightarrow> Trace \<Rightarrow> statement list" where
  "trace_statements marshal t =
     SaveTrace (row_of t) #
     map (\<lambda>ev. CreateEvent \<lparr>EvTraceID = ID t, EvTime = EventTime ev, EvName = EventName ev,
                              EvFields = marshal (EventFields ev)\<rparr>) (Events t)"

definition persistTrace ::
  "((string \<times> any) list \<Rightarrow> string) \<Rightarrow> (nat \<Rightarrow> db_error option) \<Rightarrow> db_state option \<Rightarrow> Trace \<Rightarrow>
   db_state option \<times> db_error option list" where
  "persistTrace marshal fault dbo t =
     (case dbo of
        None \<Rightarrow> (None, [])
      | Some db \<Rightarrow>
          (let stmts = trace_statements marshal t;
               outcomes = map fault [0..<length stmts]
           in (Some (foldl exec_statement db (zip outcomes stmts)), outcomes)))"

subsection \<open>The GORM logger (gorm_logger.go)\<close>

text \<open>
  GORM's log levels are Silent = 1, Error = 2, Warn = 3, Info = 4. \<open>db.Init\<close> chooses
  the level of the logger from the log threshold at that time.
\<close>

definition gormLevel_of :: "string \<Rightarrow> int" where
  "gormLevel_of lvl =
     (if lvl = ''debug'' then 4 else if lvl = ''error'' \<or> lvl = ''fatal'' then 2 else 3)"

text \<open>
  \<open>(g *gormJSONLogger) Trace\<close>, which GORM calls after every statement with the
  statement's error. \<open>sqlf\<close> are the fields derived from the statement (operation,
  table, rows, duration, caller).
\<close>

definition gorm_Trace ::
  "int \<Rightarrow> bool \<Rightarrow> any list \<Rightarrow> int \<Rightarrow> db_error option \<Rightarrow> log_state \<Rightarrow> log_state" where
  "gorm_Trace glevel js sqlf now err s =
     (if glevel \<le> 0 then s
      else let flds = sqlf @ [Str ''sqlMasked'', Boolean True]
           in (case err of
                 Some ErrRecordNotFound \<Rightarrow>
                   if glevel \<ge> 4
                   then stdLogger_write js ''debug'' ''gorm_sql''
                          (flds @ [Str ''notFound'', Boolean True]) now s
                   else s
               | Some (DbError msg) \<Rightarrow>
                   if glevel \<ge> 2
                   then stdLogger_write js ''error'' ''gorm_sql''
                          (flds @ [Str ''error'', Str msg]) now s
                   else if glevel \<ge> 4
                   then stdLogger_write js ''debug'' ''gorm_sql''
                          (flds @ [Str ''error'', Str msg]) now s
                   else s
               | None \<Rightarrow>
                   if glevel \<ge> 4
                   then stdLogger_write js ''debug'' ''gorm_sql'' flds now s
                   else s))"

subsection \<open>The tracing middleware\<close>

record request =
  req_method :: string
  req_path :: string
  req_user :: "(string \<times> string) option"
  req_userAgent :: string
  req_forwardedFor :: string
  req_remoteAddr :: string
  req_contentLength :: int

text \<open>
  The trace as the middleware creates it. The event \<open>request.start\<close> is added through
  the request before the trace is put into the request's context, so \<open>addEvent\<close> finds
  no trace and the event is not recorded.
\<close>

definition begin_trace :: "request \<Rightarrow> string \<Rightarrow> int \<Rightarrow> Trace" where
  "begin_trace r tid started =
     \<lparr>ID = tid, Method = req_method r, Path = req_path r, Status = 0,
      UserEmail = (case req_user r of Some (email, role) \<Rightarrow> email | None \<Rightarrow> []),
      UserRole = (case req_user r of Some (email, role) \<Rightarrow> role | None \<Rightarrow> []),
      UserAgent = req_userAgent r,
      RemoteIP = (if req_forwardedFor r \<noteq> [] then req_forwardedFor r else req_remoteAddr r),
      ReqBytes = (if req_contentLength r > 0 then req_contentLength r else 0),
      RespBytes = 0, Started = started, Ended = 0, Duration = 0, Events = []\<rparr>"

text \<open>
  After the handler returns: \<open>t.Status = rec.code; t.Ended = time.Now();
  t.Duration = t.Ended.Sub(t.Started); t.RespBytes = rec.bytes\<close>, then the event
  \<open>request.end\<close>.
\<close>

definition finish_trace :: "Trace \<Rightarrow> statusRecorder \<Rightarrow> int \<Rightarrow> int \<Rightarrow> Trace" where
  "finish_trace t rec ended now =
     (let t1 = t\<lparr>Status := code rec, Ended := ended, Duration := ended - Started t,
                  RespBytes := bytes rec\<rparr>
      in t1\<lparr>Events := Events t1 @
               [\<lparr>EventTime = now, EventName = ''request.end'',
                 EventFields = [(''status'', Num (code rec)), (''respBytes'', Num (bytes rec))]\<rparr>]\<rparr>)"

text \<open>The environment of one request and the state of the process.\<close>

record mw_env =
  marshal :: "(string \<times> any) list \<Rightarrow> string"
  fault :: "nat \<Rightarrow> db_error option"
  glevel :: int
  json_flag :: bool
  sqlf :: "any list"
  trace_id :: string
  started_at :: int
  ended_at :: int
  end_event_at :: int
  log_at :: int

record mw_state =
  traces :: traceStore
  database :: "db_state option"
  logs :: log_state

record mw_result =
  sent :: response
  recorder :: statusRecorder
  finished :: Trace
  after :: mw_state

definition http_request_kv :: "Trace \<Rightarrow> any list" where
  "http_request_kv t =
     [Str ''method'', Str (Method t), Str ''path'', Str (Path t), Str ''status'', Num (Status t),
      Str ''durationMs'', Flt (f64_div (f64_of_int (Duration t)) 1000000),
      Str ''user'', Str (UserEmail t), Str ''role'', Str (UserRole t),
      Str ''traceId'', Str (ID t), Str ''bytesIn'', Num (ReqBytes t),
      Str ''bytesOut'', Num (RespBytes t)]"

text \<open>
  The tracing middleware around a handler: \<open>None\<close> when the handler panics (the code
  after \<open>next.ServeHTTP\<close> does not run). The request counters are left out.
\<close>

definition tracing_middleware ::
  "mw_env \<Rightarrow> request \<Rightarrow> handler_call list \<Rightarrow> mw_state \<Rightarrow> mw_result option" where
  "tracing_middleware env r handler st =
     (let t = begin_trace r (trace_id env) (started_at env);
          rec = \<lparr>code = 200, bytes = 0\<rparr>
      in case run_handler handler (rec, response_initial) t of
           None \<Rightarrow> None
         | Some ((rec', w), t') \<Rightarrow>
             (let t1 = finish_trace t' rec' (ended_at env) (end_event_at env);
                  ring = traceStore_add t1 (traces st);
                  (db, outcomes) = persistTrace (marshal env) (fault env) (database st) t1;
                  lg = foldl (\<lambda>s err. gorm_Trace (glevel env) (json_flag env) (sqlf env)
                                       (log_at env) err s) (logs st) outcomes;
                  lg' = stdLogger_write (json_flag env) ''info'' ''http_request''
                          (http_request_kv t1) (log_at env) lg
              in Some \<lparr>sent = w, recorder = rec', finished = t1,
                       after = \<lparr>traces = ring, database = db, logs = lg'\<rparr>\<rparr>))"


subsection \<open>Notions used to state the middleware's properties\<close>

text \<open>
  The code of the last \<open>WriteHeader\<close> call of a handler, or \<open>c\<close> when it makes none.
\<close>

fun last_code :: "handler_call list \<Rightarrow> int \<Rightarrow> int" where
  "last_code [] c = c"
| "last_code (WriteHeader c' # cs) c = last_code cs c'"
| "last_code (Write n # cs) c = last_code cs c"
| "last_code (AddEvent now name flds # cs) c = last_code cs c"

definition is_WriteHeader :: "handler_call \<Rightarrow> bool" where
  "is_WriteHeader h = (case h of WriteHeader c \<Rightarrow> True | _ \<Rightarrow> False)"

text \<open>The log entry of a failed statement, and the event rows of a trace.\<close>

definition gorm_error_entry :: "any list \<Rightarrow> int \<Rightarrow> string \<Rightarrow> entry" where
  "gorm_error_entry sf now msg =
     \<lparr>Time = now, Level = ''error'', Msg = ''gorm_sql'',
      Fields = fieldsFromKV (sf @ [Str ''sqlMasked'', Boolean True, Str ''error'', Str msg])\<rparr>"

definition event_rows_of :: "((string \<times> any) list \<Rightarrow> string) \<Rightarrow> Trace \<Rightarrow> TraceEventRow list" where
  "event_rows_of m t =
     map (\<lambda>ev. \<lparr>EvTraceID = ID t, EvTime = EventTime ev, EvName = EventName ev,
                  EvFields = m (EventFields ev)\<rparr>) (Events t)"

text \<open>A request, an environment and a process state for concrete instances.\<close>

definition sample_request :: request where
  "sample_request = \<lparr>req_method = ''GET'', req_path = ''/health'', req_user = None,
     req_userAgent = ''curl'', req_forwardedFor = [], req_remoteAddr = ''10.0.0.1:5000'',
     req_contentLength = 0\<rparr>"

definition sample_mw_env :: mw_env where
  "sample_mw_env = \<lparr>marshal = (\<lambda>f. ''{}''), fault = (\<lambda>k. None), glevel = 2, json_flag = True,
     sqlf = [], trace_id = ''ab12'', started_at = 100, ended_at = 250, end_event_at = 260,
     log_at = 270\<rparr>"

definition sample_mw_state :: "string \<Rightarrow> mw_state" where
  "sample_mw_state lvl = \<lparr>traces = traces_initial,
     database = Some \<lparr>trace_rows = [], event_rows = []\<rparr>, logs = SetLevel lvl initial\<rparr>"

definition failing_db_env :: mw_env where
  "failing_db_env = sample_mw_env\<lparr>fault := (\<lambda>k. Some (DbError ''disk full''))\<rparr>"

section \<open>Transfer Engine (copyObject, moveObject)\<close>

text \<open>
  The frames of the NDJSON response: \<open>{"status":"starting","total":t}\<close>,
  \<open>{"progress":p,"bytes":b,"total":t}\<close>, \<open>{"progress":100,"bytes":b,"total":t,"done":true}\<close>
  and \<open>{"error":msg}\<close>. A request rejected before streaming gets a plain
  \<open>http.Error\<close> reply.
\<close>

datatype frame = Starting int | Progress int int int | Done int int | ErrorFrame string

datatype reply = HttpError int string | Stream "frame list"

text \<open>
  An object is located by provider id, bucket and key; the object stores hold a content
  per locator.
\<close>

type_synonym locator = "int \<times> string \<times> string"

type_synonym store = "locator \<Rightarrow> string option"

datatype s3_call = StatObject locator | GetObject locator | ObjStat locator
  | PutObject locator | RemoveObject locator

text \<open>
  What happens while \<open>Upload\<close> (or \<open>DeleteObject\<close>) runs: the upload reads \<open>n\<close>
  bytes through the counting reader, or the 300 ms ticker fires and the progress goroutine
  writes a frame. The goroutine is modelled while these calls run; a tick that races with
  the last frame of the handler is outside this sequential model.
\<close>

datatype step = Read nat | Tick

text \<open>
  The collaborators of one request: whether \<open>getClient\<close> finds a provider, the results
  of \<open>StatObject\<close>, \<open>GetObject\<close> and the object's own \<open>Stat\<close>, the interleaving of
  reads and ticks during the upload and its error, and the ticks during the deletion and
  its error.
\<close>

record s3_env =
  provider_ok :: "int \<Rightarrow> bool"
  stat_result :: "string + int"
  get_error :: "string option"
  obj_stat :: "string + int"
  upload_steps :: "step list"
  upload_error :: "string option"
  delete_ticks :: nat
  delete_error :: "string option"

record transfer_in =
  SrcKey :: string
  DstBucket :: string
  DstKey :: string
  DstProviderID :: int

text \<open>
  The request: the result of \<open>strconv.Atoi\<close> on the \<open>id\<close> parameter (\<open>None\<close> when
  it fails), the \<open>name\<close> parameter, and the decoded body or the decoder's error.
\<close>

record transfer_req =
  pid_param :: "int option"
  bucket_param :: string
  body :: "string + transfer_in"

record transfer_result =
  reply :: reply
  objects :: store
  calls :: "s3_call list"
  trace_events :: "(string \<times> (string \<times> any) list) list"

definition getClient :: "s3_env \<Rightarrow> int \<Rightarrow> bool" where
  "getClient env pid = (if pid \<le> 0 then False else provider_ok env pid)"

text \<open>
  \<open>DownloadWithInfo\<close>: the error, or the best-effort total size, with the calls made.
\<close>

definition DownloadWithInfo :: "s3_env \<Rightarrow> locator \<Rightarrow> (string + int) \<times> s3_call list" where
  "DownloadWithInfo env src =
     (case stat_result env of
        Inr sz \<Rightarrow>
          (case get_error env of
             Some err2 \<Rightarrow> (Inl err2, [StatObject src, GetObject src])
           | None \<Rightarrow> (Inr sz, [StatObject src, GetObject src]))
      | Inl _ \<Rightarrow>
          (case get_error env of
             Some err \<Rightarrow> (Inl err, [StatObject src, GetObject src])
           | None \<Rightarrow>
               (case obj_stat env of
                  Inr sz \<Rightarrow> (Inr sz, [StatObject src, GetObject src, ObjStat src])
                | Inl _ \<Rightarrow> (Inr 0, [StatObject src, GetObject src, ObjStat src]))))"

text \<open>
  \<open>pct := 0; if total > 0 { pct = int((float64(transferred) / float64(total)) * 100) }\<close>
\<close>

definition pct :: "int \<Rightarrow> int \<Rightarrow> int" where
  "pct tot transferred =
     (if tot > 0
      then f64_to_int (f64_mul (f64_div (f64_of_int transferred) (f64_of_int tot)) 100)
      else 0)"

text \<open>The frames written and the byte count reached while a client call runs.\<close>

fun run_steps :: "int \<Rightarrow> step list \<Rightarrow> int \<Rightarrow> frame list \<times> int" where
  "run_steps tot [] transferred = ([], transferred)"
| "run_steps tot (Read n # ss) transferred = run_steps tot ss (transferred + int n)"
| "run_steps tot (Tick # ss) transferred =
     (case run_steps tot ss transferred of
        (fs, t) \<Rightarrow> (Progress (pct tot transferred) transferred tot # fs, t))"

text \<open>
  \<open>Upload\<close> reads the source object: it fails when the object is absent, or with the
  error of the destination; \<open>DeleteObject\<close> fails with its error.
\<close>

definition upload_result :: "s3_env \<Rightarrow> store \<Rightarrow> locator \<Rightarrow> string + string" where
  "upload_result env st src =
     (case st src of
        None \<Rightarrow> Inl ''The specified key does not exist.''
      | Some content \<Rightarrow> (case upload_error env of Some err \<Rightarrow> Inl err | None \<Rightarrow> Inr content))"

text \<open>
  The part both handlers share, up to the start of the stream: parameter and body
  checks, the two clients and \<open>DownloadWithInfo\<close>. The result is the reply that ends
  the request there, or source, destination and total.
\<close>

definition transfer_begin ::
  "s3_env \<Rightarrow> transfer_req \<Rightarrow> (reply \<times> s3_call list) + (locator \<times> locator \<times> int \<times> s3_call list)" where
  "transfer_begin env req =
     (case pid_param req of
        None \<Rightarrow> Inl (HttpError 400 ''invalid provider id'', [])
      | Some pid \<Rightarrow>
          if pid \<le> 0 then Inl (HttpError 400 ''invalid provider id'', [])
          else (case body req of
             Inl err \<Rightarrow> Inl (HttpError 400 err, [])
           | Inr inp \<Rightarrow>
               if SrcKey inp = [] \<or> DstBucket inp = []
               then Inl (HttpError 400 ''srcKey and dstBucket are required'', [])
               else let dstKey = (if DstKey inp = [] then SrcKey inp else DstKey inp)
                    in if \<not> getClient env pid
                       then Inl (HttpError 404 ''source provider not found'', [])
                       else let dstPid = (if DstProviderID inp = 0 then pid
                                          else DstProviderID inp)
                            in if \<not> getClient env dstPid
                               then Inl (HttpError 404 ''destination provider not found'', [])
                               else let src = (pid, bucket_param req, SrcKey inp);
                                        dst = (dstPid, DstBucket inp, dstKey)
                                    in (case DownloadWithInfo env src of
                                          (Inl err, cs) \<Rightarrow> Inl (Stream [ErrorFrame err], cs)
                                        | (Inr tot, cs) \<Rightarrow> Inr (src, dst, tot, cs))))"

definition copyObject :: "s3_env \<Rightarrow> transfer_req \<Rightarrow> store \<Rightarrow> transfer_result" where
  "copyObject env req st =
     (case transfer_begin env req of
        Inl (r, cs) \<Rightarrow> \<lparr>reply = r, objects = st, calls = cs, trace_events = []\<rparr>
      | Inr (src, dst, tot, cs) \<Rightarrow>
          (case run_steps tot (upload_steps env) 0 of
             (fs, transferred) \<Rightarrow>
               (case upload_result env st src of
                  Inl err \<Rightarrow>
                    \<lparr>reply = Stream (Starting tot # fs @ [ErrorFrame err]), objects = st,
                     calls = cs @ [PutObject dst], trace_events = []\<rparr>
                | Inr content \<Rightarrow>
                    \<lparr>reply = Stream (Starting tot # fs @ [Done transferred tot]),
                     objects = st(dst \<mapsto> content), calls = cs @ [PutObject dst],
                     trace_events = [(''object.copy.end'', [(''ok'', Boolean True)])]\<rparr>)))"

definition moveObject :: "s3_env \<Rightarrow> transfer_req \<Rightarrow> store \<Rightarrow> transfer_result" where
  "moveObject env req st =
     (case transfer_begin env req of
        Inl (r, cs) \<Rightarrow> \<lparr>reply = r, objects = st, calls = cs, trace_events = []\<rparr>
      | Inr (src, dst, tot, cs) \<Rightarrow>
          (case run_steps tot (upload_steps env) 0 of
             (fs, transferred) \<Rightarrow>
               (case upload_result env st src of
                  Inl err \<Rightarrow>
                    \<lparr>reply = Stream (Starting tot # fs @ [ErrorFrame err]), objects = st,
                     calls = cs @ [PutObject dst], trace_events = []\<rparr>
                | Inr content \<Rightarrow>
                    (case run_steps tot (replicate (delete_ticks env) Tick) transferred of
                       (ds, _) \<Rightarrow>
                         (case delete_error env of
                            Some err \<Rightarrow>
                              \<lparr>reply = Stream (Starting tot # fs @ ds @ [ErrorFrame err]),
                               objects = st(dst \<mapsto> content),
                               calls = cs @ [PutObject dst, RemoveObject src],
                               trace_events = []\<rparr>
                          | None \<Rightarrow>
                              \<lparr>reply = Stream (Starting tot # fs @ ds @ [Done transferred tot]),
                               objects = (st(dst \<mapsto> content))(src := None),
                               calls = cs @ [PutObject dst, RemoveObject src],
                               trace_events =
                                 [(''object.move.end'', [(''ok'', Boolean True)])]\<rparr>)))))"

text \<open>A well-formed request and collaborators without faults, for concrete instances.\<close>

definition sample_req :: transfer_req where
  "sample_req = \<lparr>pid_param = Some 1, bucket_param = ''src'',
     body = Inr \<lparr>SrcKey = ''k'', DstBucket = ''dst'', DstKey = [], DstProviderID = 0\<rparr>\<rparr>"

definition sample_env :: s3_env where
  "sample_env = \<lparr>provider_ok = (\<lambda>p. True), stat_result = Inl ''stat failed'',
     get_error = None, obj_stat = Inl ''stat failed'', upload_steps = [],
     upload_error = None, delete_ticks = 0, delete_error = None\<rparr>"

definition sample_store :: store where
  "sample_store = Map.empty((1, ''src'', ''k'') \<mapsto> [])"

text \<open>The kinds of frames.\<close>

definition is_progress :: "frame \<Rightarrow> bool" where
  "is_progress f = (case f of Progress p b t \<Rightarrow> True | _ \<Rightarrow> False)"

definition is_done :: "frame \<Rightarrow> bool" where
  "is_done f = (case f of Done b t \<Rightarrow> True | _ \<Rightarrow> False)"

definition is_error :: "frame \<Rightarrow> bool" where
  "is_error f = (case f of ErrorFrame m \<Rightarrow> True | _ \<Rightarrow> False)"

definition is_delete :: "s3_call \<Rightarrow> bool" where
  "is_delete c = (case c of RemoveObject l \<Rightarrow> True | _ \<Rightarrow> False)"

text \<open>The same collaborators with a failing upload, and with a failing deletion.\<close>

definition failing_upload_env :: s3_env where
  "failing_upload_env = sample_env\<lparr>upload_error := Some ''access denied''\<rparr>"

definition failing_delete_env :: s3_env where
  "failing_delete_env = sample_env\<lparr>delete_error := Some ''delete refused''\<rparr>"

section \<open>Properties of the Event Log Store\<close>

subsection \<open>The ring as a rotated list\<close>

lemma catSomes_append: "catSomes (xs @ ys) = catSomes xs @ catSomes ys"
  by (induction xs rule: catSomes.induct) auto

lemma catSomes_rev: "catSomes (rev xs) = rev (catSomes xs)"
  by (induction xs rule: catSomes.induct) (auto simp: catSomes_append)

lemma catSomes_replicate_None: "catSomes (replicate k None) = []"
  by (induction k) auto

lemma catSomes_map_Some: "catSomes (map Some xs) = xs"
  by (induction xs) auto

lemma Recent_loop_walk:
  "length out \<le> n \<Longrightarrow>
   Recent_loop buf n c i out = take n (out @ catSomes (ring_walk buf i c))"
proof (induction c arbitrary: i out)
  case 0
  then show ?case by simp
next
  case (Suc c)
  show ?case
  proof (cases "length out < n")
    case True
    then show ?thesis
      using Suc.IH[of "case buf ! i of Some e \<Rightarrow> out @ [e] | None \<Rightarrow> out"]
      by (cases "buf ! i") auto
  next
    case False
    with Suc.prems show ?thesis by simp
  qed
qed

lemma ring_walk_explicit:
  "i < length buf \<Longrightarrow> c \<le> length buf \<Longrightarrow>
   ring_walk buf i c = take c (rev (take (Suc i) buf) @ rev (drop (Suc i) buf))"
proof (induction c arbitrary: i)
  case 0
  then show ?case by simp
next
  case (Suc c)
  let ?L = "length buf"
  show ?case
  proof (cases i)
    case 0
    have pred: "(i + ?L - 1) mod ?L = ?L - 1" using 0 Suc.prems by simp
    have "ring_walk buf (?L - 1) c = take c (rev buf)"
      using Suc.IH[of "?L - 1"] Suc.prems by simp
    moreover have "rev buf = rev (drop 1 buf) @ [buf ! 0]"
      using Suc.prems by (cases buf) auto
    moreover have "c \<le> length (rev (drop 1 buf))" using Suc.prems by simp
    ultimately have "ring_walk buf (?L - 1) c = take c (rev (drop 1 buf))"
      by simp
    moreover have "take (Suc 0) buf = [buf ! 0]" using Suc.prems by (cases buf) auto
    ultimately show ?thesis using 0 pred by simp
  next
    case (Suc j)
    have pred: "(i + ?L - 1) mod ?L = j" using Suc Suc.prems by simp
    have IH: "ring_walk buf j c = take c (rev (take (Suc j) buf) @ rev (drop (Suc j) buf))"
      using Suc.IH[of j] Suc Suc.prems by simp
    have d: "drop (Suc j) buf = buf ! Suc j # drop (Suc (Suc j)) buf"
      using Suc Suc.prems by (simp add: Cons_nth_drop_Suc)
    have t: "take (Suc (Suc j)) buf = take (Suc j) buf @ [buf ! Suc j]"
      using Suc Suc.prems by (simp add: take_Suc_conv_app_nth)
    have len: "c \<le> length (rev (take (Suc j) buf) @ rev (drop (Suc (Suc j)) buf))"
      using Suc Suc.prems by simp
    have "take c (rev (take (Suc j) buf) @ rev (drop (Suc j) buf))
        = take c ((rev (take (Suc j) buf) @ rev (drop (Suc (Suc j)) buf)) @ [buf ! Suc j])"
      by (simp add: d)
    also have "\<dots> = take c (rev (take (Suc j) buf) @ rev (drop (Suc (Suc j)) buf))"
      using len by (simp only: take_append) simp
    finally show ?thesis using Suc pred IH t by simp
  qed
qed

lemma ring_walk_full:
  assumes "p < length buf"
  shows "ring_walk buf ((p + length buf - 1) mod length buf) (length buf) = rev (rotate p buf)"
proof (cases p)
  case 0
  then show ?thesis using assms ring_walk_explicit[of "length buf - 1" buf "length buf"]
    by simp
next
  case (Suc j)
  then have "(p + length buf - 1) mod length buf = j" using assms by simp
  then show ?thesis using assms Suc ring_walk_explicit[of j buf "length buf"]
    by (simp add: rotate_drop_take)
qed

lemma appendBuf_ring [simp]:
  "recent (appendBuf e s) = (recent s)[nextIdx s := Some e]"
  "nextIdx (appendBuf e s) = (nextIdx s + 1) mod length (recent s)"
  by (simp_all add: appendBuf_def broadcast_def Let_def)

lemma rotate_appendBuf:
  assumes "nextIdx s < length (recent s)"
  shows "rotate (nextIdx (appendBuf e s)) (recent (appendBuf e s))
         = tl (rotate (nextIdx s) (recent s)) @ [Some e]"
proof -
  let ?p = "nextIdx s" and ?buf = "recent s"
  have old: "rotate ?p ?buf = ?buf ! ?p # drop (Suc ?p) ?buf @ take ?p ?buf"
    using assms by (simp add: rotate_drop_take Cons_nth_drop_Suc)
  show ?thesis
  proof (cases "Suc ?p < length ?buf")
    case True
    then show ?thesis using assms old
      by (simp add: rotate_drop_take take_Suc_conv_app_nth)
  next
    case False
    then have "Suc ?p = length ?buf" using assms by simp
    then show ?thesis using assms old
      by (simp add: rotate_drop_take take_Suc_conv_app_nth upd_conv_take_nth_drop)
  qed
qed

lemma appendAll_snoc: "appendAll (es @ [e]) s = appendBuf e (appendAll es s)"
  by (simp add: appendAll_def)

lemma ring_view:
  assumes "recent s = replicate L None" "nextIdx s = 0" "0 < L"
  shows "length (recent (appendAll es s)) = L \<and> nextIdx (appendAll es s) < L \<and>
         rotate (nextIdx (appendAll es s)) (recent (appendAll es s))
           = drop (length es) (replicate L None @ map Some es)"
proof (induction es rule: rev_induct)
  case Nil
  then show ?case using assms by (simp add: appendAll_def)
next
  case (snoc e es)
  let ?s = "appendAll es s"
  have lt: "nextIdx ?s < length (recent ?s)" using snoc by simp
  have "rotate (nextIdx (appendBuf e ?s)) (recent (appendBuf e ?s))
        = tl (drop (length es) (replicate L None @ map Some es)) @ [Some e]"
    using rotate_appendBuf[OF lt] snoc by simp
  also have "\<dots> = drop (Suc (length es)) (replicate L None @ map Some es) @ [Some e]"
    by (simp only: drop_Suc tl_drop)
  also have "\<dots> = drop (length (es @ [e])) (replicate L None @ map Some (es @ [e]))"
    using assms(3) by simp
  finally show ?case using snoc assms(3) by (simp add: appendAll_snoc)
qed

lemma catSomes_view:
  "catSomes (drop m (replicate L None @ map Some es)) = drop (m - L) es"
  by (simp add: catSomes_append catSomes_replicate_None catSomes_map_Some drop_map)

lemma Recent_appendAll:
  assumes "recent s = replicate L None" "nextIdx s = 0" "0 < L"
  shows "Recent n (appendAll es s)
         = take (if n \<le> 0 \<or> n > int L then L else nat n) (rev es)"
proof -
  let ?s = "appendAll es s"
  note v = ring_view[OF assms, of es]
  have w: "ring_walk (recent ?s) ((nextIdx ?s + L - 1) mod L) L
           = rev (drop (length es) (replicate L None @ map Some es))"
    using ring_walk_full[of "nextIdx ?s" "recent ?s"] v by simp
  have c: "catSomes (ring_walk (recent ?s) ((nextIdx ?s + L - 1) mod L) L) = take L (rev es)"
    unfolding w catSomes_rev catSomes_view by (cases "L \<le> length es") (simp_all add: rev_drop)
  have len: "length (recent ?s) = L" using v by simp
  show ?thesis
  proof (cases "n \<le> 0 \<or> n > int L")
    case True
    then show ?thesis using c by (simp add: Recent_def Let_def Recent_loop_walk len)
  next
    case False
    then have "nat n \<le> L" by linarith
    then show ?thesis using False c
      by (simp add: Recent_def Let_def Recent_loop_walk len min_absorb2)
  qed
qed


subsection \<open>Bounded history\<close>

text \<open>
  Claim C3. Starting from the empty ring of 1000 slots, after any sequence \<open>es\<close> of
  accepted writes (oldest first): when more than 1000 entries were written,
  \<open>Recent 1000\<close> returns exactly 1000 entries, the 1000 most recently written, newest
  first; and for every \<open>n\<close> from 1 to 1000, \<open>Recent n\<close> returns the (up to) \<open>n\<close>
  most recent entries, newest first.
\<close>

theorem recent_bounded_history:
  assumes "recent s = replicate 1000 None" and "nextIdx s = 0"
  shows "(1000 < length es \<longrightarrow>
            length (Recent 1000 (appendAll es s)) = 1000 \<and>
            Recent 1000 (appendAll es s) = take 1000 (rev es)) \<and>
         (1 \<le> n \<and> n \<le> 1000 \<longrightarrow>
            Recent n (appendAll es s) = take (nat n) (rev es))"
proof -
  have r: "Recent k (appendAll es s)
           = take (if k \<le> 0 \<or> k > int 1000 then 1000 else nat k) (rev es)" for k
    using Recent_appendAll[OF assms(1) assms(2), of k es] by simp
  show ?thesis by (simp add: r)
qed

theorem recent_bounded_history_witness:
  "recent initial = replicate 1000 None \<and> nextIdx initial = 0 \<and>
   1000 < length (map sample_entry [0..<1001]) \<and>
   length (Recent 1000 (appendAll (map sample_entry [0..<1001]) initial)) = 1000 \<and>
   Recent 1000 (appendAll (map sample_entry [0..<1001]) initial)
     = take 1000 (rev (map sample_entry [0..<1001])) \<and>
   Recent 3 (appendAll (map sample_entry [0..<1001]) initial)
     = take 3 (rev (map sample_entry [0..<1001]))"
proof -
  have a: "recent initial = replicate 1000 None" and b: "nextIdx initial = 0"
    by (simp_all add: initial_def)
  have c: "1000 < length (map sample_entry [0..<1001])" by simp
  show ?thesis
    using a b c recent_bounded_history[OF a b, of "map sample_entry [0..<1001]" 3]
    by simp
qed

text \<open>
  Claim C10. For \<open>n \<le> 0\<close> or \<open>n > 1000\<close>, \<open>Recent n\<close> is \<open>Recent 1000\<close>: it
  returns all the stored entries (at most 1000), newest first.
\<close>

theorem recent_out_of_range:
  assumes "recent s = replicate 1000 None" and "nextIdx s = 0"
    and "n \<le> 0 \<or> 1000 < n"
  shows "Recent n (appendAll es s) = Recent 1000 (appendAll es s) \<and>
         Recent n (appendAll es s) = take 1000 (rev es)"
proof -
  have r: "Recent k (appendAll es s)
           = take (if k \<le> 0 \<or> k > int 1000 then 1000 else nat k) (rev es)" for k
    using Recent_appendAll[OF assms(1) assms(2), of k es] by simp
  show ?thesis using assms(3) by (auto simp add: r)
qed

theorem recent_out_of_range_witness:
  "recent initial = replicate 1000 None \<and> nextIdx initial = 0 \<and> ((-1::int) \<le> 0 \<or> 1000 < (-1::int)) \<and>
   Recent (-1) (appendAll [sample_entry 1, sample_entry 2] initial)
     = Recent 1000 (appendAll [sample_entry 1, sample_entry 2] initial) \<and>
   Recent (-1) (appendAll [sample_entry 1, sample_entry 2] initial)
     = [sample_entry 2, sample_entry 1]"
proof -
  have a: "recent initial = replicate 1000 None" and b: "nextIdx initial = 0"
    by (simp_all add: initial_def)
  have c: "(-1::int) \<le> 0 \<or> 1000 < (-1::int)" by simp
  show ?thesis
    using a b c recent_out_of_range[OF a b c, of "[sample_entry 1, sample_entry 2]"]
    by auto
qed

subsection \<open>Level filter\<close>







section \<open>Properties of the Aggregator\<close>

subsection \<open>The sort of the percentile helper is insertion sort\<close>




subsection \<open>The selection sort sorts\<close>

lemma find_best_upto:
  fixes key :: "'a \<Rightarrow> 'b::linorder"
  assumes "i < m" "m \<le> length arr"
  shows "(let mi = foldl (\<lambda>mi j. if key (arr ! j) < key (arr ! mi) then j else mi) i [Suc i..<m]
          in i \<le> mi \<and> mi < m \<and> (\<forall>j. i \<le> j \<and> j < m \<longrightarrow> key (arr ! mi) \<le> key (arr ! j)))"
  using assms
proof (induction m)
  case 0
  then show ?case by simp
next
  case (Suc m)
  show ?case
  proof (cases "i = m")
    case True
    have "key (arr ! m) \<le> key (arr ! j)" if "m \<le> j" "j < Suc m" for j
    proof -
      have "j = m" using that by simp
      then show ?thesis by simp
    qed
    then show ?thesis using True by simp
  next
    case False
    then have im: "i < m" using Suc.prems by simp
    let ?mi = "foldl (\<lambda>mi j. if key (arr ! j) < key (arr ! mi) then j else mi) i [Suc i..<m]"
    have IH: "i \<le> ?mi" "?mi < m" "\<forall>j. i \<le> j \<and> j < m \<longrightarrow> key (arr ! ?mi) \<le> key (arr ! j)"
      using Suc.IH[OF im] Suc.prems by (simp_all add: Let_def)
    have up: "[Suc i..<Suc m] = [Suc i..<m] @ [m]" using im by simp
    show ?thesis
    proof (cases "key (arr ! m) < key (arr ! ?mi)")
      case True
      have "key (arr ! m) \<le> key (arr ! j)" if "i \<le> j" "j < Suc m" for j
      proof (cases "j = m")
        case False
        then have "key (arr ! ?mi) \<le> key (arr ! j)" using IH(3) that by simp
        then show ?thesis using True by simp
      qed simp
      then show ?thesis unfolding up Let_def foldl_append using True im by simp
    next
      case False
      have "key (arr ! ?mi) \<le> key (arr ! j)" if "i \<le> j" "j < Suc m" for j
        using IH(3) that False by (cases "j = m") simp_all
      then show ?thesis unfolding up Let_def foldl_append using False IH by simp
    qed
  qed
qed

lemma find_best_props:
  fixes key :: "'a \<Rightarrow> 'b::linorder"
  assumes "i < length arr"
  shows "i \<le> find_best (\<lambda>a b. key a < key b) arr i"
    and "find_best (\<lambda>a b. key a < key b) arr i < length arr"
    and "\<And>j. i \<le> j \<Longrightarrow> j < length arr \<Longrightarrow>
           key (arr ! find_best (\<lambda>a b. key a < key b) arr i) \<le> key (arr ! j)"
  using find_best_upto[OF assms order_refl, of key] by (simp_all add: find_best_def Let_def)

lemma swap_props:
  assumes "i \<le> mi" "mi < length arr"
  shows "length (swap i mi arr) = length arr"
    and "take i (swap i mi arr) = take i arr"
    and "swap i mi arr ! i = arr ! mi"
    and "mset (swap i mi arr) = mset arr"
    and "mset (drop i (swap i mi arr)) = mset (drop i arr)"
proof -
  show l: "length (swap i mi arr) = length arr" by (simp add: swap_def)
  show t: "take i (swap i mi arr) = take i arr" using assms by (simp add: swap_def)
  show "swap i mi arr ! i = arr ! mi"
    using assms by (cases "i = mi") (simp_all add: swap_def)
  show m: "mset (swap i mi arr) = mset arr"
    using assms unfolding swap_def by (simp add: mset_swap)
  have "mset (take i (swap i mi arr)) + mset (drop i (swap i mi arr)) = mset (take i arr) + mset (drop i arr)"
    using m by (metis append_take_drop_id mset_append)
  then show "mset (drop i (swap i mi arr)) = mset (drop i arr)" using t by simp
qed

lemma sel_step:
  fixes key :: "'a \<Rightarrow> 'b::linorder"
  assumes inv: "sel_inv key arr k s" and k: "k < length arr"
  shows "sel_inv key arr (Suc k) (swap k (find_best (\<lambda>a b. key a < key b) s k) s)"
proof -
  let ?mi = "find_best (\<lambda>a b. key a < key b) s k"
  let ?s = "swap k ?mi s"
  have ks: "k < length s" using inv k by (simp add: sel_inv_def)
  note fb = find_best_props[OF ks, where key=key]
  note sw = swap_props[OF fb(1) fb(2)]
  have min: "\<forall>y \<in> set (drop k s). key (s ! ?mi) \<le> key y"
  proof
    fix y assume "y \<in> set (drop k s)"
    then obtain j where "j < length (drop k s)" "drop k s ! j = y" by (auto simp: in_set_conv_nth)
    then have "y = s ! (k + j)" "k + j < length s" by auto
    then show "key (s ! ?mi) \<le> key y" using fb(3)[of "k + j"] by simp
  qed
  have mem: "s ! ?mi \<in> set (drop k s)"
  proof -
    have "drop k s ! (?mi - k) = s ! ?mi" using fb(1) fb(2) by simp
    moreover have "?mi - k < length (drop k s)" using fb(1) fb(2) by simp
    ultimately show ?thesis by (metis nth_mem)
  qed
  have tk: "take (Suc k) ?s = take k s @ [s ! ?mi]"
    using sw ks by (simp add: take_Suc_conv_app_nth)
  have dset: "set (drop k ?s) = set (drop k s)" using sw(5) by (metis set_mset_mset)
  have dk: "drop k ?s = s ! ?mi # drop (Suc k) ?s"
    using sw ks by (metis Cons_nth_drop_Suc)
  have sub: "set (drop (Suc k) ?s) \<subseteq> set (drop k s)"
    using dset dk by (metis set_subset_Cons)
  have "sorted (map key (take (Suc k) ?s))"
    using inv mem by (auto simp: tk sorted_append sel_inv_def)
  moreover have "\<forall>x \<in> set (take (Suc k) ?s). \<forall>y \<in> set (drop (Suc k) ?s). key x \<le> key y"
    using inv min sub by (auto simp: tk sel_inv_def)
  ultimately show ?thesis using inv sw by (simp add: sel_inv_def)
qed

lemma selection_sort_inv:
  fixes key :: "'a \<Rightarrow> 'b::linorder"
  shows "k \<le> length arr \<Longrightarrow>
     sel_inv key arr k (foldl (\<lambda>a i. swap i (find_best (\<lambda>a b. key a < key b) a i) a) arr [0..<k])"
proof (induction k)
  case 0
  then show ?case by (simp add: sel_inv_def)
next
  case (Suc k)
  then show ?case using sel_step[of key arr k] by simp
qed

lemma selection_sort_sorted:
  fixes key :: "'a \<Rightarrow> 'b::linorder"
  shows "sorted (map key (selection_sort (\<lambda>a b. key a < key b) arr))"
    and "mset (selection_sort (\<lambda>a b. key a < key b) arr) = mset arr"
    and "length (selection_sort (\<lambda>a b. key a < key b) arr) = length arr"
proof -
  let ?r = "selection_sort (\<lambda>a b. key a < key b) arr"
  have inv: "sel_inv key arr (length arr) ?r"
    using selection_sort_inv[of "length arr" arr key] by (simp add: selection_sort_def)
  show l: "length ?r = length arr" using inv by (simp add: sel_inv_def)
  show "mset ?r = mset arr" using inv by (simp add: sel_inv_def)
  have "sorted (map key (take (length arr) ?r))" using inv unfolding sel_inv_def by blast
  then show "sorted (map key ?r)" using l by simp
qed


lemma keyed_sorted_unique:
  fixes xs ys :: "('k::linorder \<times> 'v) list"
  assumes "mset xs = mset ys" "sorted (map fst xs)" "sorted (map fst ys)" "distinct (map fst xs)"
  shows "xs = ys"
proof -
  have m: "mset (map fst xs) = mset (map fst ys)" using assms(1) by simp
  then have dy: "distinct (map fst ys)" using assms(4) by (metis mset_eq_imp_distinct_iff)
  have "set (map fst xs) = set (map fst ys)" using m by (metis set_mset_mset)
  then have keys: "map fst xs = map fst ys"
    using assms(2,3,4) dy by (metis sorted_distinct_set_unique)
  have len: "length xs = length ys" using assms(1) by (metis size_mset)
  show ?thesis
  proof (rule nth_equalityI[OF len])
    fix i assume i: "i < length xs"
    then have "xs ! i \<in> set ys" using assms(1) by (metis nth_mem set_mset_mset)
    then obtain j where j: "j < length ys" "ys ! j = xs ! i" by (auto simp: in_set_conv_nth)
    have "map fst ys ! j = map fst ys ! i"
      using j i len keys by (metis nth_map)
    moreover have "j < length (map fst ys)" "i < length (map fst ys)"
      using j(1) i len by simp_all
    ultimately have "j = i" using dy nth_eq_iff_index_eq by blast
    then show "xs ! i = ys ! i" using j by simp
  qed
qed

subsection \<open>The per-minute buckets\<close>

lemma upt_12: "[0..<12] = [0, 1, 2, 3, 4, 5, 6, 7, 8, 9, 10, 11]"
  by (simp add: upt_rec)

lemma minute_unix_shift:
  "minute_unix (now - int i * 60000000000) = (now div 60000000000 - int i) * 60"
proof -
  have "(now - int i * 60000000000) div 60000000000 = now div 60000000000 - int i"
    by (metis add.commute diff_conv_add_uminus div_mult_self1 mult_minus_left zero_neq_numeral)
  then show ?thesis by (simp add: minute_unix_def)
qed

lemma seed_buckets_explicit:
  "seed_buckets now = map (\<lambda>i. ((now div 60000000000 - int i) * 60, 0, 0)) [0..<12]"
  unfolding seed_buckets_def minute_unix_shift upt_12 by simp

lemma seed_keys_mset: "mset (map fst (seed_buckets now)) = mset (minute_keys now)"
  unfolding seed_buckets_explicit minute_keys_def upt_12 by simp

lemma minute_keys_sorted: "sorted (minute_keys now)" "distinct (minute_keys now)"
  unfolding minute_keys_def upt_12 by simp_all


lemma map_of_keyed:
  "map_of (map (\<lambda>k. (k, f k)) ks) m = (if m \<in> set ks then Some (f m) else None)"
  by (induction ks) auto

lemma update_keyed:
  "m \<in> set ks \<Longrightarrow> distinct ks \<Longrightarrow>
   AList.update m v (map (\<lambda>k. (k, f k)) ks) = map (\<lambda>k. (k, (f(m := v)) k)) ks"
proof (induction ks)
  case Nil
  then show ?case by simp
next
  case (Cons a ks)
  show ?case
  proof (cases "a = m")
    case True
    then have "m \<notin> set ks" using Cons.prems by simp
    then have "map (\<lambda>k. (k, (f(m := v)) k)) ks = map (\<lambda>k. (k, f k)) ks" by auto
    then show ?thesis using True by simp
  next
    case False
    then show ?thesis using Cons by simp
  qed
qed

lemma bump_bucket_keyed:
  assumes "distinct ks"
  shows "bump_bucket m st (map (\<lambda>k. (k, f k, g k)) ks)
         = map (\<lambda>k. (k, if k = m then f k + 1 else f k,
                         if k = m \<and> st \<ge> 400 then g k + 1 else g k)) ks"
proof (cases "m \<in> set ks")
  case True
  show ?thesis
    unfolding bump_bucket_def
    using True assms update_keyed[OF True assms, of _ "\<lambda>k. (f k, g k)"]
    by (simp add: map_of_keyed[of "\<lambda>k. (f k, g k)"])
next
  case False
  then have "map (\<lambda>k. (k, if k = m then f k + 1 else f k,
                         if k = m \<and> st \<ge> 400 then g k + 1 else g k)) ks
             = map (\<lambda>k. (k, f k, g k)) ks" by auto
  then show ?thesis
    unfolding bump_bucket_def using False by (simp add: map_of_keyed[of "\<lambda>k. (f k, g k)"])
qed

lemma buckets_foldl:
  "buckets (foldl (agg_step lk) st trs)
   = foldl (\<lambda>bs t. bump_bucket (minute_unix (RowStarted t)) (RowStatus t) bs) (buckets st) trs"
  by (induction trs arbitrary: st) (simp_all add: agg_step_def Let_def)

lemma bucket_foldl_keyed:
  assumes "distinct ks"
  shows "foldl (\<lambda>bs t. bump_bucket (minute_unix (RowStarted t)) (RowStatus t) bs)
           (map (\<lambda>k. (k, f k, g k)) ks) trs
         = map (\<lambda>k. (k, f k + bucket_count trs k, g k + bucket_errors trs k)) ks"
proof (induction trs arbitrary: f g)
  case Nil
  then show ?case by (simp add: bucket_count_def bucket_errors_def)
next
  case (Cons t trs)
  show ?case
    unfolding foldl_Cons bump_bucket_keyed[OF assms] Cons.IH
    by (auto simp: bucket_count_def bucket_errors_def)
qed

lemma buckets_agg_loop:
  "buckets (agg_loop now lk trs)
   = map (\<lambda>k. (k, bucket_count trs k, bucket_errors trs k))
       (map (\<lambda>i. (now div 60000000000 - int i) * 60) [0..<12])"
proof -
  let ?ks = "map (\<lambda>i. (now div 60000000000 - int i) * 60) [0..<12]"
  have d: "distinct ?ks" unfolding upt_12 by simp
  have s: "seed_buckets now = map (\<lambda>k. (k, 0, 0)) ?ks"
    unfolding seed_buckets_explicit by (simp add: comp_def)
  show ?thesis
    unfolding agg_loop_def buckets_foldl
    using bucket_foldl_keyed[OF d, of "\<lambda>k. 0" "\<lambda>k. 0" trs] by (simp add: s)
qed

lemma range_map_keyed:
  "set ko \<subseteq> set ks \<Longrightarrow>
   range_map (map (\<lambda>k. (k, f k)) ks) ko = map (\<lambda>k. (k, f k)) ko"
proof (induction ko)
  case Nil
  then show ?case by (simp add: range_map_def map_filter_simps)
next
  case (Cons a ko)
  then show ?case by (simp add: range_map_def map_filter_simps map_of_keyed)
qed

lemma selection_sort_keyed:
  fixes ko :: "'k::linorder list"
  assumes "distinct ko"
  shows "selection_sort (\<lambda>a b. fst a < fst b) (map (\<lambda>k. (k, f k)) ko)
         = map (\<lambda>k. (k, f k)) (sort ko)"
proof (rule keyed_sorted_unique)
  let ?r = "selection_sort (\<lambda>a b. fst a < fst b) (map (\<lambda>k. (k, f k)) ko)"
  have ms: "mset ?r = mset (map (\<lambda>k. (k, f k)) ko)"
    by (rule selection_sort_sorted(2))
  then show "mset ?r = mset (map (\<lambda>k. (k, f k)) (sort ko))" by simp
  show "sorted (map fst ?r)" by (rule selection_sort_sorted(1))
  show "sorted (map fst (map (\<lambda>k. (k, f k)) (sort ko)))" by (simp add: comp_def)
  have "image_mset fst (mset ?r) = image_mset fst (mset (map (\<lambda>k. (k, f k)) ko))"
    by (simp only: ms)
  then have h: "mset (map fst ?r) = mset ko"
    by (simp add: multiset.map_comp comp_def)
  show "distinct (map fst ?r)" using mset_eq_imp_distinct_iff[OF h] assms by simp
qed

lemma perMinute_buckets:
  assumes "mset border = mset (map fst (seed_buckets now))"
  shows "perMinute (obsSummary now trs lk border porder)
         = map (\<lambda>ts. (ts, bucket_count trs ts, bucket_errors trs ts)) (minute_keys now)"
proof -
  let ?ks = "map (\<lambda>i. (now div 60000000000 - int i) * 60) [0..<12]"
  have m: "mset border = mset (minute_keys now)" using assms seed_keys_mset by simp
  have d: "distinct border" using m minute_keys_sorted(2) by (metis mset_eq_imp_distinct_iff)
  have srt: "sort border = minute_keys now"
    using m minute_keys_sorted by (metis properties_for_sort)
  have "map fst (seed_buckets now) = ?ks" unfolding seed_buckets_explicit by (simp add: comp_def)
  then have sub: "set border \<subseteq> set ?ks" using assms by (metis set_mset_mset subset_refl)
  have "perMinute (obsSummary now trs lk border porder)
        = selection_sort (\<lambda>a b. fst a < fst b)
            (map (\<lambda>k. (k, bucket_count trs k, bucket_errors trs k)) border)"
    unfolding obsSummary_def Let_def buckets_agg_loop
    using range_map_keyed[OF sub, of "\<lambda>k. (bucket_count trs k, bucket_errors trs k)"] by simp
  then show ?thesis
    using selection_sort_keyed[OF d, of "\<lambda>k. (bucket_count trs k, bucket_errors trs k)"] srt
    by simp
qed

subsection \<open>Percentile\<close>










subsection \<open>Bucket completeness\<close>

lemma bucket_empty:
  "\<forall>t \<in> set trs. minute_unix (RowStarted t) \<noteq> ts \<Longrightarrow>
   bucket_count trs ts = 0 \<and> bucket_errors trs ts = 0"
  by (induction trs) (auto simp: bucket_count_def bucket_errors_def)

text \<open>
  Claim C5. The summary is a total function of the window: no input makes it fail (the
  query's error is discarded and every step is defined on every list of rows, the empty
  one included). Whatever the order in which the runtime enumerates the bucket map, the
  per-minute list has exactly 12 buckets, one for each of the last 12 minutes in
  ascending order of time, each with the number of traces that started in that minute
  and the number of those with status 400 or more: 0 and 0 when no trace falls in the
  minute, and for the empty window all of them.
\<close>

theorem perMinute_twelve_buckets:
  assumes "mset border = mset (map fst (seed_buckets now))"
  shows "length (perMinute (obsSummary now trs lk border porder)) = 12 \<and>
         map fst (perMinute (obsSummary now trs lk border porder)) = minute_keys now \<and>
         sorted (minute_keys now) \<and> distinct (minute_keys now) \<and>
         perMinute (obsSummary now trs lk border porder)
           = map (\<lambda>ts. (ts, bucket_count trs ts, bucket_errors trs ts)) (minute_keys now) \<and>
         (\<forall>ts. (\<forall>t \<in> set trs. minute_unix (RowStarted t) \<noteq> ts) \<longrightarrow>
               bucket_count trs ts = 0 \<and> bucket_errors trs ts = 0) \<and>
         perMinute (obsSummary now [] lk border porder)
           = map (\<lambda>ts. (ts, 0, 0)) (minute_keys now)"
proof -
  have p: "perMinute (obsSummary now trs' lk border porder)
           = map (\<lambda>ts. (ts, bucket_count trs' ts, bucket_errors trs' ts)) (minute_keys now)"
    for trs'
    using assms by (rule perMinute_buckets)
  have l: "length (minute_keys now) = 12" by (simp add: minute_keys_def)
  have e: "bucket_count [] ts = 0 \<and> bucket_errors [] ts = 0" for ts
    by (simp add: bucket_count_def bucket_errors_def)
  show ?thesis
    using p[of trs] p[of "[]"] l e minute_keys_sorted[of now] bucket_empty[of trs]
    by (simp add: comp_def)
qed

theorem perMinute_twelve_buckets_witness:
  "mset (rev (map fst (seed_buckets 720000000000))) = mset (map fst (seed_buckets 720000000000)) \<and>
   perMinute (obsSummary 720000000000 [] (\<lambda>i. None) (rev (map fst (seed_buckets 720000000000))) [])
     = [(60, 0, 0), (120, 0, 0), (180, 0, 0), (240, 0, 0), (300, 0, 0), (360, 0, 0),
        (420, 0, 0), (480, 0, 0), (540, 0, 0), (600, 0, 0), (660, 0, 0), (720, 0, 0)]"
proof -
  have a: "mset (rev (map fst (seed_buckets 720000000000)))
           = mset (map fst (seed_buckets 720000000000))" by simp
  have k: "minute_keys 720000000000 = [60, 120, 180, 240, 300, 360, 420, 480, 540, 600, 660, 720]"
    by (simp add: minute_keys_def upt_12)
  show ?thesis
    using a perMinute_twelve_buckets[OF a, of "[]" "\<lambda>i. None" "[]"] by (simp add: k)
qed

subsection \<open>Rankings and reproducibility\<close>








section \<open>Tracing middleware: terminal fields, persistence and logging\<close>

lemma run_handler_code:
  "run_handler h (rec, w) t = Some ((rec', w'), t') \<Longrightarrow> code rec' = last_code h (code rec)"
proof (induction h arbitrary: rec w t)
  case Nil
  then show ?case by simp
next
  case (Cons a h)
  show ?case
  proof (cases a)
    case (WriteHeader c)
    then obtain w1 where w1: "response_WriteHeader c w = Some w1"
      and r: "run_handler h (rec\<lparr>code := c\<rparr>, w1) t = Some ((rec', w'), t')"
      using Cons.prems by (auto simp: recorder_WriteHeader_def split: option.splits)
    show ?thesis using Cons.IH[OF r] WriteHeader by simp
  next
    case (Write n)
    then have "run_handler h (rec\<lparr>bytes := bytes rec + n\<rparr>, response_Write n w) t
               = Some ((rec', w'), t')"
      using Cons.prems by (simp add: recorder_Write_def)
    then show ?thesis using Cons.IH Write by fastforce
  next
    case (AddEvent now name flds)
    then show ?thesis using Cons.prems Cons.IH by (auto simp: addEvent_def)
  qed
qed

lemma last_code_no_header:
  "\<not> list_ex is_WriteHeader h \<Longrightarrow> last_code h c = c"
  by (induction h c rule: last_code.induct) (simp_all add: is_WriteHeader_def)

lemma last_code_nonzero:
  "c \<noteq> 0 \<Longrightarrow> \<not> list_ex (\<lambda>x. x = WriteHeader 0) h \<Longrightarrow> last_code h c \<noteq> 0"
  by (induction h c rule: last_code.induct) auto

lemma middleware_result:
  assumes "tracing_middleware env r h st = Some res"
  shows "\<exists>rec' w t'. run_handler h (\<lparr>code = 200, bytes = 0\<rparr>, response_initial)
                        (begin_trace r (trace_id env) (started_at env)) = Some ((rec', w), t') \<and>
           sent res = w \<and> recorder res = rec' \<and>
           finished res = finish_trace t' rec' (ended_at env) (end_event_at env)"
  using assms
  by (auto simp: tracing_middleware_def Let_def split: option.splits prod.splits)

lemma finish_trace_fields:
  "Status (finish_trace t rec ended now) = code rec"
  "Ended (finish_trace t rec ended now) = ended"
  "Duration (finish_trace t rec ended now) = ended - Started t"
  "RespBytes (finish_trace t rec ended now) = bytes rec"
  by (simp_all add: finish_trace_def Let_def)

text \<open>Claim C9 (amended). The status recorder starts at 200 and every \<^verbatim>\<open>WriteHeader\<close>
  call of the handler overwrites it, so the status of a finalized trace is the code of the last
  \<^verbatim>\<open>WriteHeader\<close> call, or 200 when the handler never calls it. In particular a handler that
  writes its response without calling \<^verbatim>\<open>WriteHeader\<close> is recorded as 200, and the status is
  non-zero whenever the handler never passes the code 0 to \<^verbatim>\<open>WriteHeader\<close>.\<close>

theorem finalized_status:
  assumes "tracing_middleware env r h st = Some res"
  shows "Status (finished res) = last_code h 200 \<and>
         (\<not> list_ex is_WriteHeader h \<longrightarrow> Status (finished res) = 200) \<and>
         (\<not> list_ex (\<lambda>x. x = WriteHeader 0) h \<longrightarrow> Status (finished res) \<noteq> 0)"
proof -
  obtain rec' w t' where
    rh: "run_handler h (\<lparr>code = 200, bytes = 0\<rparr>, response_initial)
           (begin_trace r (trace_id env) (started_at env)) = Some ((rec', w), t')"
    and f: "finished res = finish_trace t' rec' (ended_at env) (end_event_at env)"
    using middleware_result[OF assms] by blast
  have "Status (finished res) = last_code h 200"
    using run_handler_code[OF rh] by (simp add: f finish_trace_fields)
  then show ?thesis using last_code_no_header[of h 200] last_code_nonzero[of 200 h] by simp
qed

lemma sample_run:
  "run_handler [Write 2, WriteHeader 0] (\<lparr>code = 200, bytes = 0\<rparr>, response_initial) t
   = Some ((\<lparr>code = 0, bytes = 2\<rparr>, \<lparr>wroteHeader = True, status_sent = 200, body_bytes = 2\<rparr>), t)"
  "run_handler [Write 2] (\<lparr>code = 200, bytes = 0\<rparr>, response_initial) t
   = Some ((\<lparr>code = 200, bytes = 2\<rparr>, \<lparr>wroteHeader = True, status_sent = 200, body_bytes = 2\<rparr>), t)"
  by (simp_all add: recorder_Write_def recorder_WriteHeader_def response_Write_def
        response_WriteHeader_def response_initial_def Let_def)

lemma middleware_Some:
  "run_handler h (\<lparr>code = 200, bytes = 0\<rparr>, response_initial)
     (begin_trace r (trace_id env) (started_at env)) = Some ((rec', w), t') \<Longrightarrow>
   \<exists>res. tracing_middleware env r h st = Some res"
  by (simp add: tracing_middleware_def Let_def split: prod.splits)

text \<open>A handler that only writes two bytes: the trace is finalized with status 200.\<close>

theorem finalized_status_witness:
  "(\<exists>res. tracing_middleware sample_mw_env sample_request [Write 2] (sample_mw_state ''info'') = Some res \<and>
      Status (finished res) = 200) \<and>
   \<not> list_ex is_WriteHeader [Write 2] \<and> \<not> list_ex (\<lambda>x. x = WriteHeader 0) [Write 2]"
proof -
  obtain res where
    res: "tracing_middleware sample_mw_env sample_request [Write 2] (sample_mw_state ''info'') = Some res"
    using middleware_Some[OF sample_run(2)] by blast
  have a: "\<not> list_ex is_WriteHeader [Write 2]" by (simp add: is_WriteHeader_def)
  have b: "\<not> list_ex (\<lambda>x. x = WriteHeader 0) [Write 2]" by simp
  show ?thesis using res a b finalized_status[OF res] by blast
qed

text \<open>The claim as stated fails: a handler that writes its body (so that 200 goes out on the
  wire) and afterwards calls \<^verbatim>\<open>WriteHeader(0)\<close> leaves the recorder, and hence the finalized
  trace, with status 0. The late call is ignored by the underlying writer once the header has been
  written, but the recorder stores its argument first.\<close>

theorem status_zero_counterexample:
  "map_option (\<lambda>res. (Status (finished res), status_sent (sent res)))
     (tracing_middleware sample_mw_env sample_request [Write 2, WriteHeader 0]
        (sample_mw_state ''info''))
   = Some (0, 200)"
proof -
  obtain res where
    res: "tracing_middleware sample_mw_env sample_request [Write 2, WriteHeader 0]
            (sample_mw_state ''info'') = Some res"
    using middleware_Some[OF sample_run(1)] by blast
  obtain rec' w t' where
    rh: "run_handler [Write 2, WriteHeader 0] (\<lparr>code = 200, bytes = 0\<rparr>, response_initial)
           (begin_trace sample_request (trace_id sample_mw_env) (started_at sample_mw_env))
         = Some ((rec', w), t')"
    and f: "finished res = finish_trace t' rec' (ended_at sample_mw_env) (end_event_at sample_mw_env)"
    and s: "sent res = w"
    using middleware_result[OF res] by blast
  have "rec' = \<lparr>code = 0, bytes = 2\<rparr>" "w = \<lparr>wroteHeader = True, status_sent = 200, body_bytes = 2\<rparr>"
    using rh unfolding sample_run(1) by simp_all
  then show ?thesis using res f s by (simp add: finish_trace_fields)
qed

lemma write_printed:
  "printed (stdLogger_write js lvl msg kv now s)
   = printed s @ (if shouldLog s lvl
                  then [(js, \<lparr>Time = now, Level = lvl, Msg = msg, Fields = fieldsFromKV kv\<rparr>)]
                  else [])"
  by (simp add: stdLogger_write_def appendBuf_def broadcast_def Let_def)

lemma write_level: "logLevel (stdLogger_write js lvl msg kv now s) = logLevel s"
  by (simp add: stdLogger_write_def appendBuf_def broadcast_def Let_def)

lemma write_filtered: "\<not> shouldLog s lvl \<Longrightarrow> stdLogger_write js lvl msg kv now s = s"
  by (simp add: stdLogger_write_def)

lemma gorm_Trace_level: "logLevel (gorm_Trace gl js sf now err s) = logLevel s"
  by (simp add: gorm_Trace_def Let_def write_level split: option.splits db_error.splits)

lemma gorm_Trace_prefix: "\<exists>new. printed (gorm_Trace gl js sf now err s) = printed s @ new"
  by (simp add: gorm_Trace_def Let_def write_printed split: option.splits db_error.splits)

lemma gorm_Trace_error:
  assumes "2 \<le> gl" "order (logLevel s) \<le> 2"
  shows "printed (gorm_Trace gl js sf now (Some (DbError msg)) s)
         = printed s @ [(js, gorm_error_entry sf now msg)]"
  using assms
  by (simp add: gorm_Trace_def Let_def write_printed shouldLog_def order_def gorm_error_entry_def)

lemma gorm_fold_level:
  "logLevel (foldl (\<lambda>s err. gorm_Trace gl js sf now err s) s outcomes) = logLevel s"
  by (induction outcomes arbitrary: s) (simp_all add: gorm_Trace_level)

lemma gorm_fold_prefix:
  "\<exists>new. printed (foldl (\<lambda>s err. gorm_Trace gl js sf now err s) s outcomes) = printed s @ new"
proof (induction outcomes arbitrary: s)
  case Nil
  then show ?case by simp
next
  case (Cons a outcomes)
  obtain n1 where n1: "printed (gorm_Trace gl js sf now a s) = printed s @ n1"
    using gorm_Trace_prefix by blast
  obtain n2 where "printed (foldl (\<lambda>s err. gorm_Trace gl js sf now err s)
                      (gorm_Trace gl js sf now a s) outcomes)
                   = printed (gorm_Trace gl js sf now a s) @ n2"
    using Cons.IH by blast
  then show ?case using n1 by simp
qed

lemma gorm_fold_error:
  assumes "2 \<le> gl" "order (logLevel s) \<le> 2" "Some (DbError msg) \<in> set outcomes"
  shows "(js, gorm_error_entry sf now msg)
         \<in> set (printed (foldl (\<lambda>s err. gorm_Trace gl js sf now err s) s outcomes))"
  using assms
proof (induction outcomes arbitrary: s)
  case Nil
  then show ?case by simp
next
  case (Cons a outcomes)
  let ?s1 = "gorm_Trace gl js sf now a s"
  have lv: "order (logLevel ?s1) \<le> 2" using Cons.prems(2) by (simp add: gorm_Trace_level)
  show ?case
  proof (cases "a = Some (DbError msg)")
    case True
    obtain new where "printed (foldl (\<lambda>s err. gorm_Trace gl js sf now err s) ?s1 outcomes)
                      = printed ?s1 @ new"
      using gorm_fold_prefix by blast
    then show ?thesis
      using gorm_Trace_error[OF Cons.prems(1,2), of js sf now msg] True by simp
  next
    case False
    then have "Some (DbError msg) \<in> set outcomes" using Cons.prems(3) by simp
    then show ?thesis using Cons.IH[OF Cons.prems(1) lv] by simp
  qed
qed

lemma gorm_fold_filtered:
  assumes "logLevel s = ''fatal''" "\<forall>x \<in> set outcomes. x \<noteq> None \<and> x \<noteq> Some ErrRecordNotFound"
  shows "foldl (\<lambda>s err. gorm_Trace gl js sf now err s) s outcomes = s"
  using assms
proof (induction outcomes)
  case Nil
  then show ?case by simp
next
  case (Cons a outcomes)
  then obtain msg where a: "a = Some (DbError msg)" by (cases a) (auto intro: db_error.exhaust)
  have "gorm_Trace gl js sf now a s = s"
    using Cons.prems(1) unfolding a
    by (simp add: gorm_Trace_def Let_def write_filtered shouldLog_def order_def)
  then show ?case using Cons by simp
qed

lemma exec_all_ok:
  "foldl exec_statement db (zip (replicate n None) (map CreateEvent evs))
   = db\<lparr>event_rows := event_rows db @ take n evs\<rparr>"
proof (induction evs arbitrary: db n)
  case Nil
  then show ?case by simp
next
  case (Cons e evs)
  then show ?case by (cases n) (simp_all add: exec_statement_def)
qed

lemma persist_ok:
  assumes "\<forall>k. fl k = None"
  shows "persistTrace m fl (Some db) t
         = (Some \<lparr>trace_rows = save_row (row_of t) (trace_rows db),
                   event_rows = event_rows db @ event_rows_of m t\<rparr>,
            replicate (Suc (length (Events t))) None)"
proof -
  have f: "fl = (\<lambda>k. None)" using assms by auto
  have st: "trace_statements m t = SaveTrace (row_of t) # map CreateEvent (event_rows_of m t)"
    by (simp add: trace_statements_def event_rows_of_def comp_def)
  have len: "length (trace_statements m t) = Suc (length (Events t))"
    by (simp add: trace_statements_def)
  have o: "map fl [0..<length (trace_statements m t)] = replicate (Suc (length (Events t))) None"
    unfolding f len by (simp only: map_replicate_const length_upt) simp
  have "foldl exec_statement db (zip (replicate (Suc (length (Events t))) None) (trace_statements m t))
        = foldl exec_statement (db\<lparr>trace_rows := save_row (row_of t) (trace_rows db)\<rparr>)
            (zip (replicate (length (Events t)) None) (map CreateEvent (event_rows_of m t)))"
    unfolding st by (simp add: exec_statement_def)
  also have "\<dots> = \<lparr>trace_rows = save_row (row_of t) (trace_rows db),
                   event_rows = event_rows db @ event_rows_of m t\<rparr>"
    unfolding exec_all_ok by (simp add: event_rows_of_def)
  finally show ?thesis
    unfolding persistTrace_def Let_def o by simp
qed

lemma run_handler_started:
  "run_handler h sr t = Some (sr', t') \<Longrightarrow> Started t' = Started t"
proof (induction h sr t rule: run_handler.induct)
  case (1 sr t)
  then show ?case by simp
next
  case (2 c cs sr t)
  then show ?case by (auto split: option.splits)
next
  case (3 n cs sr t)
  then show ?case by simp
next
  case (4 now name flds cs sr t)
  then show ?case by (auto simp: addEvent_def)
qed

lemma persist_faulty:
  assumes "\<forall>k. \<exists>msg. fl k = Some (DbError msg)"
  shows "fst (persistTrace m fl (Some db) t) = Some db"
    and "\<forall>x \<in> set (snd (persistTrace m fl (Some db) t)). x \<noteq> None \<and> x \<noteq> Some ErrRecordNotFound"
proof -
  have z: "foldl exec_statement db (zip (map fl ks) stmts) = db" for ks stmts
  proof (induction ks arbitrary: stmts)
    case Nil
    then show ?case by simp
  next
    case (Cons k ks)
    obtain msg where "fl k = Some (DbError msg)" using assms by blast
    then show ?case using Cons by (cases stmts) (simp_all add: exec_statement_def)
  qed
  show "fst (persistTrace m fl (Some db) t) = Some db"
    by (simp add: persistTrace_def Let_def z)
  show "\<forall>x \<in> set (snd (persistTrace m fl (Some db) t)). x \<noteq> None \<and> x \<noteq> Some ErrRecordNotFound"
  proof
    fix x assume "x \<in> set (snd (persistTrace m fl (Some db) t))"
    then obtain k where "x = fl k" by (auto simp: persistTrace_def Let_def)
    moreover obtain msg where "fl k = Some (DbError msg)" using assms by blast
    ultimately show "x \<noteq> None \<and> x \<noteq> Some ErrRecordNotFound" by simp
  qed
qed

lemma persist_outcomes:
  "snd (persistTrace m fl (Some db) t) = map fl [0..<Suc (length (Events t))]"
  by (simp add: persistTrace_def Let_def trace_statements_def)

lemma middleware_unfold:
  assumes "run_handler h (\<lparr>code = 200, bytes = 0\<rparr>, response_initial)
             (begin_trace r (trace_id env) (started_at env)) = Some ((rec', w), t')"
  shows "tracing_middleware env r h st
         = (let t1 = finish_trace t' rec' (ended_at env) (end_event_at env);
                p = persistTrace (marshal env) (fault env) (database st) t1
            in Some \<lparr>sent = w, recorder = rec', finished = t1,
                 after = \<lparr>traces = traceStore_add t1 (traces st), database = fst p,
                   logs = stdLogger_write (json_flag env) ''info'' ''http_request''
                            (http_request_kv t1) (log_at env)
                            (foldl (\<lambda>s err. gorm_Trace (glevel env) (json_flag env) (sqlf env)
                                       (log_at env) err s) (logs st) (snd p))\<rparr>\<rparr>)"
  using assms by (simp add: tracing_middleware_def Let_def split: prod.splits)

text \<open>Claim C8 (amended). When the handler returns, the middleware sets the terminal fields of the
  trace (status, end time, response bytes), computes the duration as end minus start, and hands
  the trace to \<^const>\<open>persistTrace\<close>. With a configured database and no statement failing, the
  database gains one trace row (saved by id) and one row per event of the trace. The errors of
  the statements are discarded by \<^const>\<open>persistTrace\<close>: whatever statements fail, the response
  sent to the client, the recorder, the finalized trace and the in-memory trace store are the same.
  A failing statement is reported only by the database logger, as an error-level entry
  \<^verbatim>\<open>gorm_sql\<close>, and only when the database logger's level is at least error and the process-wide
  log threshold is at most error.\<close>

theorem finish_persists_without_propagation:
  assumes "run_handler h (\<lparr>code = 200, bytes = 0\<rparr>, response_initial)
             (begin_trace r (trace_id env) (started_at env)) = Some ((rec', w), t')"
  shows "\<exists>res. tracing_middleware env r h st = Some res \<and>
           finished res = finish_trace t' rec' (ended_at env) (end_event_at env) \<and>
           Status (finished res) = code rec' \<and> Ended (finished res) = ended_at env \<and>
           Duration (finished res) = ended_at env - started_at env \<and>
           RespBytes (finished res) = bytes rec' \<and>
           sent res = w \<and> recorder res = rec' \<and>
           (\<forall>f'. \<exists>res'. tracing_middleware (env\<lparr>fault := f'\<rparr>) r h st = Some res' \<and>
                  sent res' = sent res \<and> recorder res' = recorder res \<and>
                  finished res' = finished res \<and> traces (after res') = traces (after res)) \<and>
           (\<forall>db. database st = Some db \<and> (\<forall>k. fault env k = None) \<longrightarrow>
                  database (after res)
                    = Some \<lparr>trace_rows = save_row (row_of (finished res)) (trace_rows db),
                            event_rows = event_rows db
                              @ event_rows_of (marshal env) (finished res)\<rparr>) \<and>
           (\<forall>db k msg. database st = Some db \<and> k \<le> length (Events (finished res)) \<and>
                  fault env k = Some (DbError msg) \<and> 2 \<le> glevel env \<and>
                  order (logLevel (logs st)) \<le> 2 \<longrightarrow>
                  (json_flag env, gorm_error_entry (sqlf env) (log_at env) msg)
                    \<in> set (printed (logs (after res))))"
proof -
  let ?t1 = "finish_trace t' rec' (ended_at env) (end_event_at env)"
  let ?p = "persistTrace (marshal env) (fault env) (database st) ?t1"
  let ?lg = "foldl (\<lambda>s err. gorm_Trace (glevel env) (json_flag env) (sqlf env) (log_at env) err s)
               (logs st) (snd ?p)"
  let ?res = "\<lparr>sent = w, recorder = rec', finished = ?t1,
                 after = \<lparr>traces = traceStore_add ?t1 (traces st), database = fst ?p,
                   logs = stdLogger_write (json_flag env) ''info'' ''http_request''
                            (http_request_kv ?t1) (log_at env) ?lg\<rparr>\<rparr>"
  have res: "tracing_middleware env r h st = Some ?res"
    using middleware_unfold[OF assms, of st] by (simp add: Let_def)
  have st: "Started t' = started_at env"
    using run_handler_started[OF assms] by (simp add: begin_trace_def)
  have a: "Status ?t1 = code rec'" "Ended ?t1 = ended_at env"
    "Duration ?t1 = ended_at env - started_at env" "RespBytes ?t1 = bytes rec'"
    by (simp_all add: finish_trace_fields st)
  have b: "\<exists>res'. tracing_middleware (env\<lparr>fault := f'\<rparr>) r h st = Some res' \<and>
                  sent res' = sent ?res \<and> recorder res' = recorder ?res \<and>
                  finished res' = finished ?res \<and> traces (after res') = traces (after ?res)" for f'
  proof -
    have "run_handler h (\<lparr>code = 200, bytes = 0\<rparr>, response_initial)
             (begin_trace r (trace_id (env\<lparr>fault := f'\<rparr>)) (started_at (env\<lparr>fault := f'\<rparr>)))
          = Some ((rec', w), t')" using assms by simp
    from middleware_unfold[OF this, of st] show ?thesis by (simp add: Let_def)
  qed
  have c: "database (after ?res)
             = Some \<lparr>trace_rows = save_row (row_of (finished ?res)) (trace_rows db),
                     event_rows = event_rows db @ event_rows_of (marshal env) (finished ?res)\<rparr>"
    if "database st = Some db \<and> (\<forall>k. fault env k = None)" for db
    using that persist_ok[of "fault env" "marshal env" db ?t1] by simp
  have d: "(json_flag env, gorm_error_entry (sqlf env) (log_at env) msg)
             \<in> set (printed (logs (after ?res)))"
    if h: "database st = Some db \<and> k \<le> length (Events (finished ?res)) \<and>
        fault env k = Some (DbError msg) \<and> 2 \<le> glevel env \<and> order (logLevel (logs st)) \<le> 2"
    for db k msg
  proof -
    have "snd ?p = map (fault env) [0..<Suc (length (Events ?t1))]"
      using h persist_outcomes[of "marshal env" "fault env" db ?t1] by simp
    moreover have "k < Suc (length (Events ?t1))" using h by simp
    then have "k \<in> set [0..<Suc (length (Events ?t1))]" by (simp only: set_upt atLeastLessThan_iff) simp
    ultimately have "Some (DbError msg) \<in> set (snd ?p)" using h by (metis (no_types, lifting) image_eqI set_map)
    then have "(json_flag env, gorm_error_entry (sqlf env) (log_at env) msg) \<in> set (printed ?lg)"
      using h gorm_fold_error[of "glevel env" "logs st" msg "snd ?p" "json_flag env" "sqlf env" "log_at env"]
      by simp
    then show ?thesis by (simp add: write_printed)
  qed
  show ?thesis
  proof (rule exI[of _ ?res], intro conjI allI impI)
    show "tracing_middleware env r h st = Some ?res" by (rule res)
    show "finished ?res = ?t1" by simp
    show "Status (finished ?res) = code rec'" using a by simp
    show "Ended (finished ?res) = ended_at env" using a by simp
    show "Duration (finished ?res) = ended_at env - started_at env" using a by simp
    show "RespBytes (finished ?res) = bytes rec'" using a by simp
    show "sent ?res = w" by simp
    show "recorder ?res = rec'" by simp
  next
    fix f'
    show "\<exists>res'. tracing_middleware (env\<lparr>fault := f'\<rparr>) r h st = Some res' \<and>
                  sent res' = sent ?res \<and> recorder res' = recorder ?res \<and>
                  finished res' = finished ?res \<and> traces (after res') = traces (after ?res)"
      by (rule b)
  next
    fix db
    assume "database st = Some db \<and> (\<forall>k. fault env k = None)"
    then show "database (after ?res)
             = Some \<lparr>trace_rows = save_row (row_of (finished ?res)) (trace_rows db),
                     event_rows = event_rows db @ event_rows_of (marshal env) (finished ?res)\<rparr>"
      by (rule c)
  next
    fix db k msg
    assume "database st = Some db \<and> k \<le> length (Events (finished ?res)) \<and>
        fault env k = Some (DbError msg) \<and> 2 \<le> glevel env \<and> order (logLevel (logs st)) \<le> 2"
    then show "(json_flag env, gorm_error_entry (sqlf env) (log_at env) msg)
             \<in> set (printed (logs (after ?res)))"
      by (rule d)
  qed
qed

text \<open>A request whose handler writes two bytes: with a healthy database one trace row and the
  event rows are stored; with every statement failing and threshold info the response is still
  200 and the failure is printed by the database logger.\<close>

theorem finish_persists_without_propagation_witness:
  "run_handler [Write 2] (\<lparr>code = 200, bytes = 0\<rparr>, response_initial)
     (begin_trace sample_request (trace_id sample_mw_env) (started_at sample_mw_env))
   = Some ((\<lparr>code = 200, bytes = 2\<rparr>, \<lparr>wroteHeader = True, status_sent = 200, body_bytes = 2\<rparr>),
           begin_trace sample_request (trace_id sample_mw_env) (started_at sample_mw_env)) \<and>
   (\<exists>res. tracing_middleware sample_mw_env sample_request [Write 2] (sample_mw_state ''info'') = Some res \<and>
      Status (finished res) = 200 \<and> Duration (finished res) = 150 \<and>
      status_sent (sent res) = 200 \<and>
      database (after res)
        = Some \<lparr>trace_rows = [row_of (finished res)],
                event_rows = event_rows_of (marshal sample_mw_env) (finished res)\<rparr>) \<and>
   (\<exists>res. tracing_middleware failing_db_env sample_request [Write 2] (sample_mw_state ''info'') = Some res \<and>
      status_sent (sent res) = 200 \<and>
      (True, gorm_error_entry [] 270 ''disk full'') \<in> set (printed (logs (after res))))"
proof -
  let ?t0 = "begin_trace sample_request (trace_id sample_mw_env) (started_at sample_mw_env)"
  have r1: "run_handler [Write 2] (\<lparr>code = 200, bytes = 0\<rparr>, response_initial) ?t0
   = Some ((\<lparr>code = 200, bytes = 2\<rparr>, \<lparr>wroteHeader = True, status_sent = 200, body_bytes = 2\<rparr>), ?t0)"
    by (rule sample_run(2))
  have r2: "run_handler [Write 2] (\<lparr>code = 200, bytes = 0\<rparr>, response_initial)
      (begin_trace sample_request (trace_id failing_db_env) (started_at failing_db_env))
   = Some ((\<lparr>code = 200, bytes = 2\<rparr>, \<lparr>wroteHeader = True, status_sent = 200, body_bytes = 2\<rparr>),
           begin_trace sample_request (trace_id failing_db_env) (started_at failing_db_env))"
    by (rule sample_run(2))
  obtain res where res: "tracing_middleware sample_mw_env sample_request [Write 2] (sample_mw_state ''info'') = Some res"
    and s: "Status (finished res) = 200" "Duration (finished res) = ended_at sample_mw_env - started_at sample_mw_env"
       "sent res = \<lparr>wroteHeader = True, status_sent = 200, body_bytes = 2\<rparr>"
    and db: "\<forall>db. database (sample_mw_state ''info'') = Some db \<and> (\<forall>k. fault sample_mw_env k = None) \<longrightarrow>
                  database (after res)
                    = Some \<lparr>trace_rows = save_row (row_of (finished res)) (trace_rows db),
                            event_rows = event_rows db
                              @ event_rows_of (marshal sample_mw_env) (finished res)\<rparr>"
    using finish_persists_without_propagation[OF r1, of "sample_mw_state ''info''"] by auto
  have d1: "database (after res)
        = Some \<lparr>trace_rows = [row_of (finished res)],
                event_rows = event_rows_of (marshal sample_mw_env) (finished res)\<rparr>"
    using db[rule_format, of "\<lparr>trace_rows = [], event_rows = []\<rparr>"]
    by (simp add: sample_mw_state_def sample_mw_env_def save_row_def)
  obtain res2 where res2: "tracing_middleware failing_db_env sample_request [Write 2] (sample_mw_state ''info'') = Some res2"
    and s2: "sent res2 = \<lparr>wroteHeader = True, status_sent = 200, body_bytes = 2\<rparr>"
    and lg: "\<forall>db k msg. database (sample_mw_state ''info'') = Some db \<and> k \<le> length (Events (finished res2)) \<and>
                  fault failing_db_env k = Some (DbError msg) \<and> 2 \<le> glevel failing_db_env \<and>
                  order (logLevel (logs (sample_mw_state ''info''))) \<le> 2 \<longrightarrow>
                  (json_flag failing_db_env, gorm_error_entry (sqlf failing_db_env) (log_at failing_db_env) msg)
                    \<in> set (printed (logs (after res2)))"
    using finish_persists_without_propagation[OF r2, of "sample_mw_state ''info''"] by auto
  have l2: "(True, gorm_error_entry [] 270 ''disk full'') \<in> set (printed (logs (after res2)))"
    using lg[rule_format, of "\<lparr>trace_rows = [], event_rows = []\<rparr>" 0 "''disk full''"]
    by (simp add: sample_mw_state_def sample_mw_env_def failing_db_env_def SetLevel_def order_def)
  have "Duration (finished res) = 150" using s(2) by (simp add: sample_mw_env_def)
  then show ?thesis using r1 res s d1 res2 s2 l2 by auto
qed

text \<open>The claim as stated fails: with the log threshold at fatal, every statement of the
  persistence failing leaves the log state exactly as it was (nothing is appended, printed or
  published) and the database unchanged, while the client still receives 200.\<close>

theorem persistence_failure_not_logged_counterexample:
  "map_option (\<lambda>res. (logs (after res), database (after res), status_sent (sent res)))
     (tracing_middleware failing_db_env sample_request [Write 2] (sample_mw_state ''fatal''))
   = Some (SetLevel ''fatal'' initial, Some \<lparr>trace_rows = [], event_rows = []\<rparr>, 200)"
proof -
  let ?st = "sample_mw_state ''fatal''"
  let ?db = "\<lparr>trace_rows = [], event_rows = []\<rparr>"
  have r2: "run_handler [Write 2] (\<lparr>code = 200, bytes = 0\<rparr>, response_initial)
      (begin_trace sample_request (trace_id failing_db_env) (started_at failing_db_env))
   = Some ((\<lparr>code = 200, bytes = 2\<rparr>, \<lparr>wroteHeader = True, status_sent = 200, body_bytes = 2\<rparr>),
           begin_trace sample_request (trace_id failing_db_env) (started_at failing_db_env))"
    by (rule sample_run(2))
  have fl: "\<forall>k. \<exists>msg. fault failing_db_env k = Some (DbError msg)"
    by (simp add: failing_db_env_def)
  have dbs: "database ?st = Some ?db" and lgs: "logs ?st = SetLevel ''fatal'' initial"
    by (simp_all add: sample_mw_state_def)
  have lv: "logLevel (SetLevel ''fatal'' initial) = ''fatal''" by (simp add: SetLevel_def)
  note pf = persist_faulty[OF fl, of "marshal failing_db_env" ?db]
  have g: "foldl (\<lambda>s err. gorm_Trace gl js sf now err s) (SetLevel ''fatal'' initial)
             (snd (persistTrace (marshal failing_db_env) (fault failing_db_env) (Some ?db) t))
           = SetLevel ''fatal'' initial" for gl js sf now t
    using gorm_fold_filtered[OF lv pf(2)] by simp
  have w: "stdLogger_write js ''info'' msg kv now (SetLevel ''fatal'' initial) = SetLevel ''fatal'' initial"
    for js msg kv now
    by (rule write_filtered) (simp add: shouldLog_def lv order_def)
  show ?thesis
    unfolding middleware_unfold[OF r2] Let_def dbs lgs g w
    using pf(1) by simp
qed

section \<open>Properties of the Transfer Engine\<close>

lemma run_steps_progress: "list_all is_progress (fst (run_steps tot ss tr))"
  by (induction tot ss tr rule: run_steps.induct) (auto simp: is_progress_def split: prod.splits)

lemma DownloadWithInfo_no_delete:
  "DownloadWithInfo env src = (r, cs) \<Longrightarrow> \<not> list_ex is_delete cs"
  by (auto simp: DownloadWithInfo_def is_delete_def split: sum.splits option.splits)

lemma transfer_begin_no_delete:
  "transfer_begin env req = Inl (r, cs) \<Longrightarrow> \<not> list_ex is_delete cs"
  "transfer_begin env req = Inr (src, dst, tot, cs) \<Longrightarrow> \<not> list_ex is_delete cs"
  by (auto simp: transfer_begin_def Let_def dest: DownloadWithInfo_no_delete
           split: option.splits sum.splits if_splits prod.splits)

lemma move_cases:
  assumes "transfer_begin env req = Inr (src, dst, tot, cs)"
  shows "(\<forall>err. upload_result env st src = Inl err \<longrightarrow>
            \<not> list_ex is_delete (calls (moveObject env req st)) \<and>
            objects (moveObject env req st) = st \<and>
            reply (moveObject env req st)
              = Stream (Starting tot # fst (run_steps tot (upload_steps env) 0) @ [ErrorFrame err])) \<and>
         (\<forall>content err. upload_result env st src = Inr content \<and> delete_error env = Some err \<longrightarrow>
            (\<exists>fs. reply (moveObject env req st) = Stream (Starting tot # fs @ [ErrorFrame err]) \<and>
                  list_all is_progress fs) \<and>
            objects (moveObject env req st) = st(dst \<mapsto> content) \<and>
            calls (moveObject env req st) = cs @ [PutObject dst, RemoveObject src]) \<and>
         (\<forall>content. upload_result env st src = Inr content \<and> delete_error env = None \<longrightarrow>
            (\<exists>fs b. reply (moveObject env req st) = Stream (Starting tot # fs @ [Done b tot]) \<and>
                  list_all is_progress fs) \<and>
            objects (moveObject env req st) = (st(dst \<mapsto> content))(src := None) \<and>
            calls (moveObject env req st) = cs @ [PutObject dst, RemoveObject src])"
proof -
  have nd: "\<not> list_ex is_delete cs" using assms by (rule transfer_begin_no_delete(2))
  obtain fs tr where u: "run_steps tot (upload_steps env) 0 = (fs, tr)" by (cases "run_steps tot (upload_steps env) 0")
  obtain ds tr' where d: "run_steps tot (replicate (delete_ticks env) Tick) tr = (ds, tr')"
    by (cases "run_steps tot (replicate (delete_ticks env) Tick) tr")
  have pf: "list_all is_progress fs" using run_steps_progress[of tot "upload_steps env" 0] u by simp
  have pd: "list_all is_progress ds"
    using run_steps_progress[of tot "replicate (delete_ticks env) Tick" tr] d by simp
  have a: "upload_result env st src = Inl err \<Longrightarrow>
       moveObject env req st = \<lparr>reply = Stream (Starting tot # fs @ [ErrorFrame err]), objects = st,
                     calls = cs @ [PutObject dst], trace_events = []\<rparr>" for err
    by (simp add: moveObject_def assms u)
  have b: "upload_result env st src = Inr content \<Longrightarrow> delete_error env = Some err \<Longrightarrow>
       moveObject env req st = \<lparr>reply = Stream (Starting tot # fs @ ds @ [ErrorFrame err]),
                               objects = st(dst \<mapsto> content),
                               calls = cs @ [PutObject dst, RemoveObject src],
                               trace_events = []\<rparr>" for content err
    by (simp add: moveObject_def assms u d)
  have c: "upload_result env st src = Inr content \<Longrightarrow> delete_error env = None \<Longrightarrow>
       moveObject env req st = \<lparr>reply = Stream (Starting tot # fs @ ds @ [Done tr tot]),
                               objects = (st(dst \<mapsto> content))(src := None),
                               calls = cs @ [PutObject dst, RemoveObject src],
                               trace_events = [(''object.move.end'', [(''ok'', Boolean True)])]\<rparr>" for content
    by (simp add: moveObject_def assms u d)
  have 1: "\<forall>err. upload_result env st src = Inl err \<longrightarrow>
            \<not> list_ex is_delete (calls (moveObject env req st)) \<and>
            objects (moveObject env req st) = st \<and>
            reply (moveObject env req st)
              = Stream (Starting tot # fst (run_steps tot (upload_steps env) 0) @ [ErrorFrame err])"
    using a nd u by (auto simp: is_delete_def)
  have 2: "\<forall>content err. upload_result env st src = Inr content \<and> delete_error env = Some err \<longrightarrow>
            (\<exists>fs. reply (moveObject env req st) = Stream (Starting tot # fs @ [ErrorFrame err]) \<and>
                  list_all is_progress fs) \<and>
            objects (moveObject env req st) = st(dst \<mapsto> content) \<and>
            calls (moveObject env req st) = cs @ [PutObject dst, RemoveObject src]"
  proof (intro allI impI)
    fix content err assume h: "upload_result env st src = Inr content \<and> delete_error env = Some err"
    have "reply (moveObject env req st) = Stream (Starting tot # (fs @ ds) @ [ErrorFrame err])"
      using b h by simp
    moreover have "list_all is_progress (fs @ ds)" using pf pd by simp
    ultimately have "\<exists>fs. reply (moveObject env req st) = Stream (Starting tot # fs @ [ErrorFrame err]) \<and>
                  list_all is_progress fs" by blast
    then show "(\<exists>fs. reply (moveObject env req st) = Stream (Starting tot # fs @ [ErrorFrame err]) \<and>
                  list_all is_progress fs) \<and>
            objects (moveObject env req st) = st(dst \<mapsto> content) \<and>
            calls (moveObject env req st) = cs @ [PutObject dst, RemoveObject src]"
      using b h by simp
  qed
  have 3: "\<forall>content. upload_result env st src = Inr content \<and> delete_error env = None \<longrightarrow>
            (\<exists>fs b. reply (moveObject env req st) = Stream (Starting tot # fs @ [Done b tot]) \<and>
                  list_all is_progress fs) \<and>
            objects (moveObject env req st) = (st(dst \<mapsto> content))(src := None) \<and>
            calls (moveObject env req st) = cs @ [PutObject dst, RemoveObject src]"
  proof (intro allI impI)
    fix content assume h: "upload_result env st src = Inr content \<and> delete_error env = None"
    have "reply (moveObject env req st) = Stream (Starting tot # (fs @ ds) @ [Done tr tot])"
      using c h by simp
    moreover have "list_all is_progress (fs @ ds)" using pf pd by simp
    ultimately have "\<exists>fs b. reply (moveObject env req st) = Stream (Starting tot # fs @ [Done b tot]) \<and>
                  list_all is_progress fs" by blast
    then show "(\<exists>fs b. reply (moveObject env req st) = Stream (Starting tot # fs @ [Done b tot]) \<and>
                  list_all is_progress fs) \<and>
            objects (moveObject env req st) = (st(dst \<mapsto> content))(src := None) \<and>
            calls (moveObject env req st) = cs @ [PutObject dst, RemoveObject src]"
      using c h by simp
  qed
  show ?thesis using 1 2 3 by blast
qed


lemma move_delete_only_after_upload:
  assumes "list_ex is_delete (calls (moveObject env req st))"
  shows "\<exists>src dst tot cs content.
           transfer_begin env req = Inr (src, dst, tot, cs) \<and>
           upload_result env st src = Inr content \<and>
           calls (moveObject env req st) = cs @ [PutObject dst, RemoveObject src]"
proof (cases "transfer_begin env req")
  case (Inl a)
  obtain r cs where a: "a = (r, cs)" by (cases a)
  have "calls (moveObject env req st) = cs" by (simp add: moveObject_def Inl a)
  then show ?thesis using assms transfer_begin_no_delete(1)[of env req r cs] Inl a by simp
next
  case (Inr b)
  obtain src dst tot cs where b: "b = (src, dst, tot, cs)" by (cases b)
  have tb: "transfer_begin env req = Inr (src, dst, tot, cs)" using Inr b by simp
  note mc = move_cases[OF tb, of st]
  have nd: "\<not> list_ex is_delete cs" using tb by (rule transfer_begin_no_delete(2))
  show ?thesis
  proof (cases "upload_result env st src")
    case (Inl err)
    then show ?thesis using mc assms by blast
  next
    case (Inr content)
    then have "calls (moveObject env req st) = cs @ [PutObject dst, RemoveObject src]"
      using mc by (cases "delete_error env") auto
    then show ?thesis using tb Inr by blast
  qed
qed

text \<open>
  Claim C1. In a move, \<open>DeleteObject\<close> is called only when the upload to the
  destination has succeeded, and after it. When the upload fails, no deletion is
  attempted, the object stores are as before (the source object is still there) and the
  stream ends with an error frame. When the upload succeeds and the deletion fails, the
  stream ends with the error frame \<open>{error: message}\<close> in the place of the success
  frame, the copy stays at the destination, and the only calls made after the download
  are the upload and the failed deletion: nothing is rolled back.
\<close>

theorem move_deletes_after_upload:
  "(list_ex is_delete (calls (moveObject env req st)) \<longrightarrow>
      (\<exists>src dst tot cs content.
          transfer_begin env req = Inr (src, dst, tot, cs) \<and>
          upload_result env st src = Inr content \<and>
          calls (moveObject env req st) = cs @ [PutObject dst, RemoveObject src])) \<and>
   (\<forall>src dst tot cs. transfer_begin env req = Inr (src, dst, tot, cs) \<longrightarrow>
      (\<forall>err. upload_result env st src = Inl err \<longrightarrow>
          \<not> list_ex is_delete (calls (moveObject env req st)) \<and>
          objects (moveObject env req st) = st \<and>
          reply (moveObject env req st)
            = Stream (Starting tot # fst (run_steps tot (upload_steps env) 0) @ [ErrorFrame err])) \<and>
      (\<forall>content err. upload_result env st src = Inr content \<and> delete_error env = Some err \<longrightarrow>
          (\<exists>fs. reply (moveObject env req st) = Stream (Starting tot # fs @ [ErrorFrame err]) \<and>
                list_all is_progress fs) \<and>
          objects (moveObject env req st) = st(dst \<mapsto> content) \<and>
          calls (moveObject env req st) = cs @ [PutObject dst, RemoveObject src]))"
proof -
  have "list_ex is_delete (calls (moveObject env req st)) \<longrightarrow>
      (\<exists>src dst tot cs content.
          transfer_begin env req = Inr (src, dst, tot, cs) \<and>
          upload_result env st src = Inr content \<and>
          calls (moveObject env req st) = cs @ [PutObject dst, RemoveObject src])"
    using move_delete_only_after_upload by blast
  then show ?thesis using move_cases[of env req _ _ _ _ st] by blast
qed

lemma sample_begin:
  "transfer_begin failing_upload_env sample_req
     = Inr ((1, ''src'', ''k''), (1, ''dst'', ''k''), 0,
            [StatObject (1, ''src'', ''k''), GetObject (1, ''src'', ''k''), ObjStat (1, ''src'', ''k'')])"
  "transfer_begin failing_delete_env sample_req
     = Inr ((1, ''src'', ''k''), (1, ''dst'', ''k''), 0,
            [StatObject (1, ''src'', ''k''), GetObject (1, ''src'', ''k''), ObjStat (1, ''src'', ''k'')])"
  by (simp_all add: transfer_begin_def failing_upload_env_def failing_delete_env_def sample_env_def
        sample_req_def getClient_def DownloadWithInfo_def Let_def)

theorem move_deletes_after_upload_witness:
  "upload_result failing_upload_env sample_store (1, ''src'', ''k'') = Inl ''access denied'' \<and>
   \<not> list_ex is_delete (calls (moveObject failing_upload_env sample_req sample_store)) \<and>
   objects (moveObject failing_upload_env sample_req sample_store) = sample_store \<and>
   reply (moveObject failing_upload_env sample_req sample_store)
     = Stream [Starting 0, ErrorFrame ''access denied''] \<and>
   upload_result failing_delete_env sample_store (1, ''src'', ''k'') = Inr [] \<and>
   delete_error failing_delete_env = Some ''delete refused'' \<and>
   list_ex is_delete (calls (moveObject failing_delete_env sample_req sample_store)) \<and>
   objects (moveObject failing_delete_env sample_req sample_store)
     = sample_store((1, ''dst'', ''k'') \<mapsto> []) \<and>
   calls (moveObject failing_delete_env sample_req sample_store)
     = [StatObject (1, ''src'', ''k''), GetObject (1, ''src'', ''k''), ObjStat (1, ''src'', ''k''),
        PutObject (1, ''dst'', ''k''), RemoveObject (1, ''src'', ''k'')]"
proof -
  have u1: "upload_result failing_upload_env sample_store (1, ''src'', ''k'') = Inl ''access denied''"
    by (simp add: upload_result_def failing_upload_env_def sample_env_def sample_store_def)
  have u2: "upload_result failing_delete_env sample_store (1, ''src'', ''k'') = Inr []"
    by (simp add: upload_result_def failing_delete_env_def sample_env_def sample_store_def)
  have d2: "delete_error failing_delete_env = Some ''delete refused''"
    by (simp add: failing_delete_env_def sample_env_def)
  have s1: "upload_steps failing_upload_env = []"
    by (simp add: failing_upload_env_def sample_env_def)
  note A = move_deletes_after_upload[of failing_upload_env sample_req sample_store,
      THEN conjunct2, rule_format, OF sample_begin(1), THEN conjunct1, rule_format, OF u1]
  note B = move_deletes_after_upload[of failing_delete_env sample_req sample_store,
      THEN conjunct2, rule_format, OF sample_begin(2), THEN conjunct2, rule_format,
      OF conjI[OF u2 d2]]
  have B3: "calls (moveObject failing_delete_env sample_req sample_store)
     = [StatObject (1, ''src'', ''k''), GetObject (1, ''src'', ''k''), ObjStat (1, ''src'', ''k''),
        PutObject (1, ''dst'', ''k''), RemoveObject (1, ''src'', ''k'')]"
    using B by simp
  have B4: "list_ex is_delete (calls (moveObject failing_delete_env sample_req sample_store))"
    unfolding B3 by (simp add: is_delete_def)
  show ?thesis
    using A B u1 u2 d2 B3 B4 by (simp add: s1)
qed

lemma copy_cases:
  assumes "transfer_begin env req = Inr (src, dst, tot, cs)"
  shows "reply (copyObject env req st)
         = Stream (Starting tot # fst (run_steps tot (upload_steps env) 0) @
                   [case upload_result env st src of
                      Inl err \<Rightarrow> ErrorFrame err
                    | Inr content \<Rightarrow> Done (snd (run_steps tot (upload_steps env) 0)) tot])"
  by (simp add: copyObject_def assms split: prod.splits sum.splits)

lemma transfer_begin_reply:
  "transfer_begin env req = Inl (Stream fs, cs) \<Longrightarrow> \<exists>err. fs = [ErrorFrame err]"
  by (auto simp: transfer_begin_def Let_def split: option.splits sum.splits if_splits prod.splits)

lemma copy_frame_shape:
  assumes "reply (copyObject env req st) = Stream fs"
  shows "(\<exists>err. fs = [ErrorFrame err]) \<or>
         (\<exists>tot ps l. fs = Starting tot # ps @ [l] \<and> list_all is_progress ps \<and>
                      (is_done l \<or> is_error l))"
proof (cases "transfer_begin env req")
  case (Inl a)
  obtain r cs where a: "a = (r, cs)" by (cases a)
  have "reply (copyObject env req st) = r" by (simp add: copyObject_def Inl a)
  then have "transfer_begin env req = Inl (Stream fs, cs)" using assms Inl a by simp
  then show ?thesis using transfer_begin_reply by blast
next
  case (Inr b)
  obtain src dst tot cs where b: "b = (src, dst, tot, cs)" by (cases b)
  have tb: "transfer_begin env req = Inr (src, dst, tot, cs)" using Inr b by simp
  let ?l = "case upload_result env st src of
                      Inl err \<Rightarrow> ErrorFrame err
                    | Inr content \<Rightarrow> Done (snd (run_steps tot (upload_steps env) 0)) tot"
  have "fs = Starting tot # fst (run_steps tot (upload_steps env) 0) @ [?l]"
    using copy_cases[OF tb, of st] assms by simp
  moreover have "is_done ?l \<or> is_error ?l"
    by (cases "upload_result env st src") (simp_all add: is_done_def is_error_def)
  ultimately show ?thesis using run_steps_progress[of tot "upload_steps env" 0] by blast
qed

text \<open>
  Claim C7, as the code has it. Copying a 0-byte object whose size is unknown (both
  \<open>Stat\<close> calls fail), with no tick of the progress timer during the upload, writes
  the frame \<open>{status: starting, total: 0}\<close> and then the terminal frame
  \<open>{progress: 100, bytes: 0, total: 0, done: true}\<close>. Every streamed response of a
  copy is either a single error frame (the download failed) or a starting frame, then
  progress frames, then one last frame that is the success frame or an error frame.
\<close>

theorem copy_frames:
  assumes "pid_param req = Some pid" "0 < pid" "body req = Inr inp"
    and "SrcKey inp \<noteq> []" "DstBucket inp \<noteq> []"
    and "getClient env pid"
    and "getClient env (if DstProviderID inp = 0 then pid else DstProviderID inp)"
    and "stat_result env = Inl e1" "get_error env = None" "obj_stat env = Inl e2"
    and "st (pid, bucket_param req, SrcKey inp) = Some []"
    and "upload_steps env = []" "upload_error env = None"
  shows "reply (copyObject env req st) = Stream [Starting 0, Done 0 0] \<and>
         (\<forall>env' req' st' fs. reply (copyObject env' req' st') = Stream fs \<longrightarrow>
            (\<exists>err. fs = [ErrorFrame err]) \<or>
            (\<exists>tot ps l. fs = Starting tot # ps @ [l] \<and> list_all is_progress ps \<and>
                         (is_done l \<or> is_error l)))"
proof -
  have tb: "transfer_begin env req
            = Inr ((pid, bucket_param req, SrcKey inp),
                   (if DstProviderID inp = 0 then pid else DstProviderID inp, DstBucket inp,
                    if DstKey inp = [] then SrcKey inp else DstKey inp), 0,
                   [StatObject (pid, bucket_param req, SrcKey inp),
                    GetObject (pid, bucket_param req, SrcKey inp),
                    ObjStat (pid, bucket_param req, SrcKey inp)])"
    using assms by (simp add: transfer_begin_def Let_def DownloadWithInfo_def)
  have "upload_result env st (pid, bucket_param req, SrcKey inp) = Inr []"
    using assms by (simp add: upload_result_def)
  then have "reply (copyObject env req st) = Stream [Starting 0, Done 0 0]"
    using copy_cases[OF tb, of st] assms(12) by simp
  then show ?thesis using copy_frame_shape by blast
qed

theorem copy_frames_witness:
  "pid_param sample_req = Some 1 \<and> (0::int) < 1 \<and>
   getClient sample_env 1 \<and> stat_result sample_env = Inl ''stat failed'' \<and>
   sample_store (1, bucket_param sample_req, ''k'') = Some [] \<and>
   reply (copyObject sample_env sample_req sample_store) = Stream [Starting 0, Done 0 0]"
proof -
  let ?inp = "\<lparr>SrcKey = ''k'', DstBucket = ''dst'', DstKey = [], DstProviderID = 0\<rparr>"
  have a: "pid_param sample_req = Some 1" "(0::int) < 1" "body sample_req = Inr ?inp"
    "SrcKey ?inp \<noteq> []" "DstBucket ?inp \<noteq> []"
    by (simp_all add: sample_req_def)
  have b: "getClient sample_env 1"
    "getClient sample_env (if DstProviderID ?inp = 0 then 1 else DstProviderID ?inp)"
    by (simp_all add: getClient_def sample_env_def)
  have c: "stat_result sample_env = Inl ''stat failed''" "get_error sample_env = None"
    "obj_stat sample_env = Inl ''stat failed''"
    "upload_steps sample_env = []" "upload_error sample_env = None"
    by (simp_all add: sample_env_def)
  have d: "sample_store (1, bucket_param sample_req, SrcKey ?inp) = Some []"
    by (simp add: sample_store_def sample_req_def)
  note T = copy_frames[where st=sample_store and env=sample_env and req=sample_req,
      OF a b c(1,2,3) d c(4,5), THEN conjunct1]
  show ?thesis using a b c d T by simp
qed

text \<open>
  The first frame of that transfer is the starting frame, which is neither a progress
  frame, nor a success frame, nor an error frame.
\<close>

theorem copy_first_frame_counterexample:
  "reply (copyObject sample_env sample_req sample_store) = Stream [Starting 0, Done 0 0] \<and>
   reply (copyObject sample_env sample_req sample_store) \<noteq> Stream [Progress 0 0 0, Done 0 0] \<and>
   \<not> is_progress (Starting 0) \<and> \<not> is_done (Starting 0) \<and> \<not> is_error (Starting 0)"
proof -
  have "transfer_begin sample_env sample_req
     = Inr ((1, ''src'', ''k''), (1, ''dst'', ''k''), 0,
            [StatObject (1, ''src'', ''k''), GetObject (1, ''src'', ''k''), ObjStat (1, ''src'', ''k'')])"
    by (simp add: transfer_begin_def sample_env_def sample_req_def getClient_def
          DownloadWithInfo_def Let_def)
  moreover have "upload_result sample_env sample_store (1, ''src'', ''k'') = Inr []"
    by (simp add: upload_result_def sample_env_def sample_store_def)
  moreover have "upload_steps sample_env = []" by (simp add: sample_env_def)
  ultimately have "reply (copyObject sample_env sample_req sample_store)
                   = Stream [Starting 0, Done 0 0]"
    by (simp add: copyObject_def)
  then show ?thesis by (simp add: is_progress_def is_done_def is_error_def)
qed

end
